theory Spec2Isabelle
  imports Main "HOL-Library.Multiset" "HOL-Library.Monad_Syntax"
begin

section \<open>Formula model\<close>

text \<open>
  The program works on Python lists of lists of signed integers. A literal is an
  \<^typ>\<open>int\<close>, a clause an \<^typ>\<open>int list\<close>, and the clause list an
  \<^typ>\<open>int list list\<close>. Every clause list handed to the mutating functions is built
  by \<^verbatim>\<open>[clause[:] for clause in clauses]\<close>, so no two clauses share storage and an
  in-place write to one clause is a functional update of that list element.

  A raised Python exception (\<^verbatim>\<open>KeyError\<close> of a dictionary lookup, \<^verbatim>\<open>ValueError\<close> of
  \<^verbatim>\<open>list.index\<close>, \<^verbatim>\<open>ZeroDivisionError\<close> of \<^verbatim>\<open>//\<close>) is the result \<^term>\<open>None\<close>.
\<close>

type_synonym clause = "int list"

text \<open>
  A dictionary from variables to booleans, as an association list in insertion order.
  The program stores a key only after testing \<^verbatim>\<open>var not in solution\<close>, so keys are
  never overwritten; \<^verbatim>\<open>solution[v]\<close> is \<^term>\<open>map_of solution v\<close> and
  \<^verbatim>\<open>len(solution)\<close> is \<^term>\<open>length solution\<close>.
\<close>

type_synonym solution = "(int \<times> bool) list"

section \<open>Horn classifier\<close>

text \<open>
  \<^verbatim>\<open>sum(1 for clause in clauses if len([lit for lit in clause if lit > 0]) <= 1)\<close>
\<close>

definition count_horn_clauses :: "clause list \<Rightarrow> int" where
  "count_horn_clauses clauses =
     sum_list (map (\<lambda>clause. 1)
       (filter (\<lambda>clause. length (filter (\<lambda>lit. lit > 0) clause) \<le> 1) clauses))"

section \<open>Variant targets\<close>

text \<open>
  \<^verbatim>\<open>step = max(num_clauses // count, 1)\<close>; Python's \<^verbatim>\<open>//\<close> is floor division, as
  \<^term>\<open>(div)\<close> on \<^typ>\<open>int\<close> is, and raises \<^verbatim>\<open>ZeroDivisionError\<close> for a zero divisor.
  The parameter \<open>cnt\<close> is the source's \<^verbatim>\<open>count\<close>.
\<close>

definition variant_step :: "int \<Rightarrow> int \<Rightarrow> int option" where
  "variant_step num_clauses cnt =
     (if cnt = 0 then None else Some (max (num_clauses div cnt) 1))"

text \<open>\<^verbatim>\<open>target_horn_clauses = i * step\<close> inside \<^verbatim>\<open>generate_instance(i)\<close>.\<close>

definition target_horn_clauses :: "int \<Rightarrow> int \<Rightarrow> int" where
  "target_horn_clauses i step = i * step"

text \<open>
  The targets of \<^verbatim>\<open>pool.map(generate_instance, range(count))\<close>, in the order of
  \<^verbatim>\<open>range(count)\<close>.
\<close>

definition variant_targets :: "int \<Rightarrow> int \<Rightarrow> int list option" where
  "variant_targets num_clauses cnt =
     (case variant_step num_clauses cnt of
        None \<Rightarrow> None
      | Some step \<Rightarrow> Some (map (\<lambda>i. target_horn_clauses i step) [0..cnt - 1]))"

section \<open>Horn-count adjuster\<close>

text \<open>
  \<^verbatim>\<open>clause.index(x)\<close>: the position of the first element equal to \<open>x\<close>;
  \<^verbatim>\<open>ValueError\<close> when there is none.
\<close>

fun list_index :: "'a list \<Rightarrow> 'a \<Rightarrow> nat option" where
  "list_index [] x = None"
| "list_index (y # ys) x = (if y = x then Some 0 else map_option Suc (list_index ys x))"

text \<open>
  The inner loop of the increase pass, over \<^verbatim>\<open>positive_literals[:-1]\<close>:
  \<^verbatim>\<open>for lit_to_flip in ...: clause[clause.index(lit_to_flip)] = -lit_to_flip\<close>.
  The position is looked up in the clause as it is at that moment.
\<close>

fun flip_to_negative :: "int list \<Rightarrow> clause \<Rightarrow> clause option" where
  "flip_to_negative [] clause = Some clause"
| "flip_to_negative (lit_to_flip # rest) clause =
     (case list_index clause lit_to_flip of
        None \<Rightarrow> None
      | Some i \<Rightarrow> flip_to_negative rest (clause[i := - lit_to_flip]))"

text \<open>
  The inner loop of the decrease pass, over \<^verbatim>\<open>neg_literals[:2]\<close>:
  \<^verbatim>\<open>for lit_to_flip in ...: clause[clause.index(lit_to_flip)] = abs(lit_to_flip)\<close>.
\<close>

fun flip_to_positive :: "int list \<Rightarrow> clause \<Rightarrow> clause option" where
  "flip_to_positive [] clause = Some clause"
| "flip_to_positive (lit_to_flip # rest) clause =
     (case list_index clause lit_to_flip of
        None \<Rightarrow> None
      | Some i \<Rightarrow> flip_to_positive rest (clause[i := abs lit_to_flip]))"

text \<open>
  The loop of the branch \<^verbatim>\<open>horn_count < target_horn_clauses\<close> of
  \<^verbatim>\<open>generate_instance\<close>, from a clause list and the running \<^verbatim>\<open>horn_count\<close> to the
  mutated clause list and the final \<^verbatim>\<open>horn_count\<close>. The \<^verbatim>\<open>break\<close> leaves the
  remaining clauses as they are. \<^verbatim>\<open>xs[:-1]\<close> is \<^term>\<open>butlast xs\<close>, also on the empty
  list.
\<close>

fun increase_horn_count :: "clause list \<Rightarrow> int \<Rightarrow> int \<Rightarrow> (clause list \<times> int) option" where
  "increase_horn_count [] horn_count target = Some ([], horn_count)"
| "increase_horn_count (clause # rest) horn_count target =
     (if horn_count \<ge> target then Some (clause # rest, horn_count)
      else
        let positive_literals = filter (\<lambda>lit. lit > 0) clause in
        if length positive_literals > 1 then
          (case flip_to_negative (butlast positive_literals) clause of
             None \<Rightarrow> None
           | Some clause' \<Rightarrow>
               map_option (\<lambda>(rest', h). (clause' # rest', h))
                 (increase_horn_count rest (horn_count + 1) target))
        else
          map_option (\<lambda>(rest', h). (clause # rest', h))
            (increase_horn_count rest horn_count target))"

text \<open>
  The loop of the branch \<^verbatim>\<open>horn_count > target_horn_clauses\<close>. \<^verbatim>\<open>xs[:2]\<close> is
  \<^term>\<open>take 2 xs\<close>. The count of positive literals that decides the decrement is read
  from the clause after the flips.
\<close>

fun decrease_horn_count :: "clause list \<Rightarrow> int \<Rightarrow> int \<Rightarrow> (clause list \<times> int) option" where
  "decrease_horn_count [] horn_count target = Some ([], horn_count)"
| "decrease_horn_count (clause # rest) horn_count target =
     (if horn_count \<le> target then Some (clause # rest, horn_count)
      else if length (filter (\<lambda>lit. lit > 0) clause) \<le> 1 then
        (let neg_literals = filter (\<lambda>lit. lit < 0) clause in
         case flip_to_positive (take 2 neg_literals) clause of
           None \<Rightarrow> None
         | Some clause' \<Rightarrow>
             map_option (\<lambda>(rest', h). (clause' # rest', h))
               (decrease_horn_count rest
                  (if length (filter (\<lambda>lit. lit > 0) clause') \<ge> 2
                   then horn_count - 1 else horn_count)
                  target))
      else
        map_option (\<lambda>(rest', h). (clause # rest', h))
          (decrease_horn_count rest horn_count target))"

text \<open>
  The whole adjustment of \<^verbatim>\<open>generate_instance\<close> (lines 125 to 146): the clause list
  after it.
\<close>

definition adjust_horn_count :: "clause list \<Rightarrow> int \<Rightarrow> clause list option" where
  "adjust_horn_count modified_clauses target =
     (let horn_count = count_horn_clauses modified_clauses in
      if horn_count < target then
        map_option fst (increase_horn_count modified_clauses horn_count target)
      else if horn_count > target then
        map_option fst (decrease_horn_count modified_clauses horn_count target)
      else Some modified_clauses)"

section \<open>Assignment builder\<close>

text \<open>
  The inner loop of \<^verbatim>\<open>generate_solution\<close> over the literals of one clause. The
  \<^verbatim>\<open>break\<close> is taken right after a store that brings \<^verbatim>\<open>len(solution)\<close> to
  \<^verbatim>\<open>num_vars\<close>.
\<close>

fun scan_clause :: "clause \<Rightarrow> int \<Rightarrow> solution \<Rightarrow> solution" where
  "scan_clause [] num_vars solution = solution"
| "scan_clause (lit # rest) num_vars solution =
     (let var = abs lit in
      if map_of solution var = None then
        (let solution' = solution @ [(var, lit > 0)] in
         if int (length solution') = num_vars then solution'
         else scan_clause rest num_vars solution')
      else scan_clause rest num_vars solution)"

text \<open>
  The outer loop: after each clause, \<^verbatim>\<open>if len(solution) == num_vars: break\<close>.
\<close>

fun scan_clauses :: "clause list \<Rightarrow> int \<Rightarrow> solution \<Rightarrow> solution" where
  "scan_clauses [] num_vars solution = solution"
| "scan_clauses (clause # rest) num_vars solution =
     (let solution' = scan_clause clause num_vars solution in
      if int (length solution') = num_vars then solution'
      else scan_clauses rest num_vars solution')"

text \<open>
  The second loop, \<^verbatim>\<open>for var in range(1, num_vars + 1)\<close>, storing
  \<^verbatim>\<open>random.choice([True, False])\<close> for each variable not yet in the dictionary. The
  random source is a parameter: \<open>choice k\<close> is what the \<open>k\<close>-th call of
  \<^verbatim>\<open>random.choice\<close> made by this run returns (counting from \<open>0\<close>).
\<close>

fun fill_unset :: "int list \<Rightarrow> (nat \<Rightarrow> bool) \<Rightarrow> nat \<Rightarrow> solution \<Rightarrow> solution" where
  "fill_unset [] choice k solution = solution"
| "fill_unset (var # rest) choice k solution =
     (if map_of solution var = None
      then fill_unset rest choice (Suc k) (solution @ [(var, choice k)])
      else fill_unset rest choice k solution)"

definition generate_solution :: "clause list \<Rightarrow> int \<Rightarrow> (nat \<Rightarrow> bool) \<Rightarrow> solution" where
  "generate_solution clauses num_vars choice =
     fill_unset [1..num_vars] choice 0 (scan_clauses clauses num_vars [])"

section \<open>Satisfiability repairer\<close>

text \<open>
  \<^verbatim>\<open>any(solution[abs(lit)] == (lit > 0) for lit in clause)\<close>: the generator is consumed
  up to the first true element, and a lookup of a missing key on the way raises
  \<^verbatim>\<open>KeyError\<close>.
\<close>

fun is_clause_satisfied :: "clause \<Rightarrow> solution \<Rightarrow> bool option" where
  "is_clause_satisfied [] solution = Some False"
| "is_clause_satisfied (lit # rest) solution =
     (case map_of solution (abs lit) of
        None \<Rightarrow> None
      | Some b \<Rightarrow> if b = (lit > 0) then Some True else is_clause_satisfied rest solution)"

text \<open>
  \<^verbatim>\<open>[(i, lit) for i, lit in enumerate(clause) if lit > 0]\<close> and its twin for
  \<^verbatim>\<open>lit < 0\<close>, both taken from the clause before any flip of the repair.
\<close>

definition positive_literals :: "clause \<Rightarrow> (nat \<times> int) list" where
  "positive_literals clause = filter (\<lambda>(i, lit). lit > 0) (enumerate 0 clause)"

definition negative_literals :: "clause \<Rightarrow> (nat \<times> int) list" where
  "negative_literals clause = filter (\<lambda>(i, lit). lit < 0) (enumerate 0 clause)"

text \<open>
  The loop that occurs in all four branches:
  \<^verbatim>\<open>for index, lit in positive_literals:
    if not (is_clause_satisfied(clause, solution)) and solution[abs(lit)] == False:
        clause[index] = -abs(lit)\<close>.
  Every \<open>index\<close> comes from \<^verbatim>\<open>enumerate(clause)\<close> and the clause keeps its length, so
  the store is in range.
\<close>

fun negate_false_positives :: "(nat \<times> int) list \<Rightarrow> solution \<Rightarrow> clause \<Rightarrow> clause option" where
  "negate_false_positives [] solution clause = Some clause"
| "negate_false_positives ((index, lit) # rest) solution clause =
     do {
       sat \<leftarrow> is_clause_satisfied clause solution;
       if \<not> sat then
         do {
           b \<leftarrow> map_of solution (abs lit);
           negate_false_positives rest solution
             (if b = False then clause[index := - abs lit] else clause)
         }
       else negate_false_positives rest solution clause
     }"

text \<open>
  The loop over the negative literals in the branch \<^verbatim>\<open>current_horn_count <=
  target_horn_count\<close> with at most one positive literal:
  \<^verbatim>\<open>if not (is_clause_satisfied(clause, solution)) and solution[abs(lit)] == True:
        clause[index] = abs(lit)\<close>.
\<close>

fun assert_true_negatives_guarded ::
  "(nat \<times> int) list \<Rightarrow> solution \<Rightarrow> clause \<Rightarrow> clause option" where
  "assert_true_negatives_guarded [] solution clause = Some clause"
| "assert_true_negatives_guarded ((index, lit) # rest) solution clause =
     do {
       sat \<leftarrow> is_clause_satisfied clause solution;
       if \<not> sat then
         do {
           b \<leftarrow> map_of solution (abs lit);
           assert_true_negatives_guarded rest solution
             (if b = True then clause[index := abs lit] else clause)
         }
       else assert_true_negatives_guarded rest solution clause
     }"

text \<open>
  The loop over the negative literals in the two branches
  \<^verbatim>\<open>current_horn_count > target_horn_count\<close>:
  \<^verbatim>\<open>if solution[abs(lit)] == True: clause[index] = abs(lit)\<close>, with no test of the
  clause.
\<close>

fun assert_true_negatives :: "(nat \<times> int) list \<Rightarrow> solution \<Rightarrow> clause \<Rightarrow> clause option" where
  "assert_true_negatives [] solution clause = Some clause"
| "assert_true_negatives ((index, lit) # rest) solution clause =
     do {
       b \<leftarrow> map_of solution (abs lit);
       assert_true_negatives rest solution
         (if b = True then clause[index := abs lit] else clause)
     }"

text \<open>
  The body of \<^verbatim>\<open>for clause in clauses\<close> in \<^verbatim>\<open>make_satisfiable\<close>: from the clause
  and the running \<^verbatim>\<open>current_horn_count\<close> to the clause after the flips and the count
  after the body. A \<^verbatim>\<open>continue\<close> leaves both as they are.
\<close>

definition repair_clause :: "solution \<Rightarrow> int \<Rightarrow> clause \<Rightarrow> int \<Rightarrow> (clause \<times> int) option" where
  "repair_clause solution target_horn_count clause current_horn_count =
     do {
       sat \<leftarrow> is_clause_satisfied clause solution;
       if sat then Some (clause, current_horn_count)
       else if current_horn_count \<le> target_horn_count then
         if length (positive_literals clause) > 1 then
           do {
             clause1 \<leftarrow> negate_false_positives (positive_literals clause) solution clause;
             sat1 \<leftarrow> is_clause_satisfied clause1 solution;
             Some (clause1,
               if sat1 \<and> length (filter (\<lambda>lit. lit > 0) clause1) \<le> 1
               then current_horn_count + 1 else current_horn_count)
           }
         else
           do {
             sat0 \<leftarrow> is_clause_satisfied clause solution;
             if sat0 then Some (clause, current_horn_count)
             else
               do {
                 clause1 \<leftarrow> negate_false_positives (positive_literals clause) solution clause;
                 clause2 \<leftarrow>
                   assert_true_negatives_guarded (negative_literals clause) solution clause1;
                 sat2 \<leftarrow> is_clause_satisfied clause2 solution;
                 Some (clause2,
                   if sat2 \<and> length (filter (\<lambda>lit. lit > 0) clause2) > 1
                   then current_horn_count - 1 else current_horn_count)
               }
           }
       else
         if length (positive_literals clause) > 1 then
           do {
             sat0 \<leftarrow> is_clause_satisfied clause solution;
             if sat0 then Some (clause, current_horn_count)
             else
               do {
                 clause1 \<leftarrow> assert_true_negatives (negative_literals clause) solution clause;
                 clause2 \<leftarrow> negate_false_positives (positive_literals clause) solution clause1;
                 sat2 \<leftarrow> is_clause_satisfied clause2 solution;
                 Some (clause2,
                   if sat2 \<and> length (filter (\<lambda>lit. lit > 0) clause2) \<le> 1
                   then current_horn_count + 1 else current_horn_count)
               }
           }
         else
           do {
             sat0 \<leftarrow> is_clause_satisfied clause solution;
             if \<not> sat0 then
               do {
                 clause1 \<leftarrow> assert_true_negatives (negative_literals clause) solution clause;
                 clause2 \<leftarrow> negate_false_positives (positive_literals clause) solution clause1;
                 sat2 \<leftarrow> is_clause_satisfied clause2 solution;
                 Some (clause2,
                   if sat2 \<and> length (filter (\<lambda>lit. lit > 0) clause2) > 1
                   then current_horn_count - 1 else current_horn_count)
               }
             else Some (clause, current_horn_count)
           }
     }"

text \<open>The loop \<^verbatim>\<open>for clause in clauses\<close>, threading \<^verbatim>\<open>current_horn_count\<close>.\<close>

fun repair_clauses ::
  "solution \<Rightarrow> int \<Rightarrow> clause list \<Rightarrow> int \<Rightarrow> (clause list \<times> int) option" where
  "repair_clauses solution target_horn_count [] current_horn_count =
     Some ([], current_horn_count)"
| "repair_clauses solution target_horn_count (clause # rest) current_horn_count =
     do {
       (clause', count') \<leftarrow> repair_clause solution target_horn_count clause current_horn_count;
       (rest', count'') \<leftarrow> repair_clauses solution target_horn_count rest count';
       Some (clause' # rest', count'')
     }"

text \<open>
  \<^verbatim>\<open>make_satisfiable\<close> with the values of its three locals at \<^verbatim>\<open>return clauses\<close>:
  the clause list, \<^verbatim>\<open>solution\<close> and \<^verbatim>\<open>current_horn_count\<close>. The source never stores
  into \<^verbatim>\<open>solution\<close> after \<^verbatim>\<open>generate_solution\<close> has returned it, so the loops above
  take it as an argument and do not return it.
\<close>

definition make_satisfiable_locals ::
  "clause list \<Rightarrow> int \<Rightarrow> int \<Rightarrow> (nat \<Rightarrow> bool) \<Rightarrow> (clause list \<times> solution \<times> int) option" where
  "make_satisfiable_locals clauses num_vars target_horn_count choice =
     (let solution = generate_solution clauses num_vars choice;
          current_horn_count = count_horn_clauses clauses
      in map_option (\<lambda>(clauses', count'). (clauses', solution, count'))
           (repair_clauses solution target_horn_count clauses current_horn_count))"

definition make_satisfiable ::
  "clause list \<Rightarrow> int \<Rightarrow> int \<Rightarrow> (nat \<Rightarrow> bool) \<Rightarrow> clause list option" where
  "make_satisfiable clauses num_vars target_horn_count choice =
     map_option fst (make_satisfiable_locals clauses num_vars target_horn_count choice)"

section \<open>Vocabulary of the properties\<close>

text \<open>
  \<open>map_first P f n xs\<close> applies \<open>f\<close> to the first \<open>n\<close> elements of \<open>xs\<close> that satisfy \<open>P\<close>
  and leaves every other element as it is.
\<close>

fun map_first :: "('a \<Rightarrow> bool) \<Rightarrow> ('a \<Rightarrow> 'a) \<Rightarrow> nat \<Rightarrow> 'a list \<Rightarrow> 'a list" where
  "map_first P f n [] = []"
| "map_first P f n (x # xs) =
     (if P x \<and> 0 < n then f x # map_first P f (n - 1) xs else x # map_first P f n xs)"

text \<open>The number of positive literals of a clause, and of negative ones.\<close>

definition pos_count :: "clause \<Rightarrow> nat" where
  "pos_count c = length (filter (\<lambda>l. l > 0) c)"

text \<open>A clause with all its positive literals but the last one negated.\<close>

definition keep_last_positive :: "clause \<Rightarrow> clause" where
  "keep_last_positive c = map_first (\<lambda>l. l > 0) uminus (pos_count c - 1) c"

text \<open>What the increase pass does to a clause it visits before it stops.\<close>

definition increase_step :: "clause \<Rightarrow> clause" where
  "increase_step c = (if 1 < pos_count c then keep_last_positive c else c)"

text \<open>The number of clauses with more than one positive literal.\<close>

definition non_horn_count :: "clause list \<Rightarrow> int" where
  "non_horn_count cs = int (length (filter (\<lambda>c. 1 < pos_count c) cs))"

definition neg_count :: "clause \<Rightarrow> nat" where
  "neg_count c = length (filter (\<lambda>l. l < 0) c)"

text \<open>A clause with its first two negative literals (or the only one) made positive.\<close>

definition flip_two_negatives :: "clause \<Rightarrow> clause" where
  "flip_two_negatives c = map_first (\<lambda>l. l < 0) abs 2 c"

text \<open>What the decrease pass does to a clause it visits before it stops.\<close>

definition decrease_step :: "clause \<Rightarrow> clause" where
  "decrease_step c = (if pos_count c \<le> 1 then flip_two_negatives c else c)"

text \<open>
  The number of Horn clauses that stop being Horn when up to two of their negative
  literals become positive.
\<close>

definition eligible_horn_count :: "clause list \<Rightarrow> int" where
  "eligible_horn_count cs =
     int (length (filter (\<lambda>c. pos_count c \<le> 1 \<and> 2 \<le> pos_count c + min 2 (neg_count c)) cs))"

text \<open>
  \<open>c'\<close> is \<open>c\<close> with exactly the positive literals that have a later positive literal
  in the clause negated.
\<close>

definition only_last_positive_kept :: "clause \<Rightarrow> clause \<Rightarrow> bool" where
  "only_last_positive_kept c c' \<longleftrightarrow>
     length c' = length c \<and>
     (\<forall>j<length c. c' ! j =
        (if 0 < c ! j \<and> (\<exists>k. j < k \<and> k < length c \<and> 0 < c ! k) then - (c ! j) else c ! j))"

text \<open>
  \<open>c'\<close> is \<open>c\<close> with exactly the negative literals preceded by fewer than two negative
  literals replaced by their absolute value.
\<close>

definition first_two_negatives_flipped :: "clause \<Rightarrow> clause \<Rightarrow> bool" where
  "first_two_negatives_flipped c c' \<longleftrightarrow>
     length c' = length c \<and>
     (\<forall>j<length c. c' ! j =
        (if c ! j < 0 \<and> card {k. k < j \<and> c ! k < 0} < 2 then abs (c ! j) else c ! j))"

text \<open>
  Every literal of every clause has its variable in \<open>1 .. num_vars\<close> (so no literal is \<open>0\<close>).
\<close>

definition vars_in_range :: "clause list \<Rightarrow> int \<Rightarrow> bool" where
  "vars_in_range clauses num_vars \<longleftrightarrow>
     (\<forall>clause\<in>set clauses. \<forall>lit\<in>set clause. 1 \<le> abs lit \<and> abs lit \<le> num_vars)"

text \<open>
  A well-formed formula: variables in range and no empty clause.
\<close>

definition well_formed :: "clause list \<Rightarrow> int \<Rightarrow> bool" where
  "well_formed clauses num_vars \<longleftrightarrow>
     vars_in_range clauses num_vars \<and> (\<forall>clause\<in>set clauses. clause \<noteq> [])"

text \<open>
  The scan of a literal sequence without the early exit: each literal whose variable has
  no entry yet adds one, with the literal's polarity.
\<close>

fun add_first :: "int list \<Rightarrow> solution \<Rightarrow> solution" where
  "add_first [] sol = sol"
| "add_first (l # ls) sol =
     (if map_of sol (abs l) = None then add_first ls (sol @ [(abs l, l > 0)])
      else add_first ls sol)"

text \<open>
  The keys of a dictionary are pairwise different and lie in \<open>1 .. nv\<close>.
\<close>

definition keys_ok :: "int \<Rightarrow> solution \<Rightarrow> bool" where
  "keys_ok nv sol \<longleftrightarrow> distinct (map fst sol) \<and> set (map fst sol) \<subseteq> {1..nv}"

text \<open>
  The frame of a repair of one clause: \<open>c'\<close> has the length of \<open>c\<close> and the same variable
  at every position, and a literal that differs from the one before has the polarity that
  the dictionary gives its variable.
\<close>

definition frame :: "solution \<Rightarrow> clause \<Rightarrow> clause \<Rightarrow> bool" where
  "frame sol c c' \<longleftrightarrow>
     length c' = length c \<and>
     (\<forall>j<length c. abs (c' ! j) = abs (c ! j) \<and>
        (c' ! j \<noteq> c ! j \<longrightarrow> map_of sol (abs (c' ! j)) = Some (c' ! j > 0)))"

section \<open>Properties of the Horn classifier\<close>

lemma sum_list_ones: "sum_list (map (\<lambda>x. (1::int)) xs) = int (length xs)"
  by (induction xs) auto

lemma count_horn_clauses_length:
  "count_horn_clauses cs =
     int (length (filter (\<lambda>c. length (filter (\<lambda>l. l > 0) c) \<le> 1) cs))"
  by (simp add: count_horn_clauses_def sum_list_ones)

text \<open>
  Claim C8. \<^const>\<open>count_horn_clauses\<close> returns exactly the number of clause positions
  whose clause has at most one position holding a literal \<open>> 0\<close>. The function only
  reads its argument: its result is an integer and the clause list is not part of it.
\<close>

theorem count_horn_clauses_correct:
  "count_horn_clauses cs =
     int (card {i. i < length cs \<and> card {j. j < length (cs ! i) \<and> cs ! i ! j > 0} \<le> 1})"
  by (simp add: count_horn_clauses_length length_filter_conv_card)

lemma count_horn_clauses_mset:
  "count_horn_clauses cs =
     int (size (filter_mset (\<lambda>m. size (filter_mset (\<lambda>l. l > 0) m) \<le> 1) (mset (map mset cs))))"
proof -
  have inner: "length (filter (\<lambda>l. l > 0) c) = size (filter_mset (\<lambda>l. l > 0) (mset c))"
    for c :: clause
    by (metis mset_filter size_mset)
  have "length (filter (\<lambda>c. length (filter (\<lambda>l. l > 0) c) \<le> 1) cs)
      = size (filter_mset (\<lambda>c. length (filter (\<lambda>l. l > 0) c) \<le> 1) (mset cs))"
    by (metis mset_filter size_mset)
  also have "\<dots> = size (filter_mset (\<lambda>m. size (filter_mset (\<lambda>l. l > 0) m) \<le> 1)
                       (image_mset mset (mset cs)))"
    by (simp add: filter_mset_image_mset inner o_def)
  finally show ?thesis
    by (simp add: count_horn_clauses_length)
qed

text \<open>
  Claim C9. Two clause lists that are the same multiset of clauses, each clause read as
  the multiset of its literals, have the same Horn count. This is exactly the relation
  between a clause list and any reordering of its clauses combined with any reordering of
  the literals inside each clause.
\<close>

theorem count_horn_clauses_permutation_invariant:
  "mset (map mset cs) = mset (map mset cs') \<Longrightarrow>
     count_horn_clauses cs = count_horn_clauses cs'"
  by (simp add: count_horn_clauses_mset)

theorem count_horn_clauses_permutation_invariant_witness:
  "mset (map mset [[1, -2, 3], [-1, 2], [4::int]]) = mset (map mset [[4], [3, 1, -2], [2, -1]])
   \<and> count_horn_clauses [[1, -2, 3], [-1, 2], [4]] = count_horn_clauses [[4], [3, 1, -2], [2, -1]]
   \<and> count_horn_clauses [[4], [3, 1, -2], [2, -1]] = 2"
proof -
  have h: "mset (map mset [[1, -2, 3], [-1, 2], [4::int]])
         = mset (map mset [[4], [3, 1, -2], [2, -1]])"
    by (simp add: add_mset_commute)
  have v: "count_horn_clauses [[4], [3, 1, -2], [2, -1]] = 2"
    by (simp add: count_horn_clauses_def)
  from h count_horn_clauses_permutation_invariant [OF h] v show ?thesis
    by blast
qed

section \<open>Properties of the variant targets\<close>

text \<open>
  Claim C10. For a positive \<open>count\<close> the step is computed without a division by zero
  and is \<open>max (num_clauses div cnt) 1\<close>; there is one target per index
  \<open>0 .. count - 1\<close>, and the target of index \<open>i\<close> is \<open>i * step\<close>. For \<open>count = 1\<close> the
  step is \<open>max num_clauses 1\<close> and the only target is \<open>0\<close>.
\<close>

theorem variant_targets_correct:
  "0 < cnt \<Longrightarrow>
     variant_step num_clauses cnt = Some (max (num_clauses div cnt) 1)
     \<and> (\<exists>ts. variant_targets num_clauses cnt = Some ts
            \<and> int (length ts) = cnt
            \<and> (\<forall>i. 0 \<le> i \<and> i < cnt \<longrightarrow>
                   ts ! nat i = i * max (num_clauses div cnt) 1))
     \<and> variant_step num_clauses 1 = Some (max num_clauses 1)
     \<and> variant_targets num_clauses 1 = Some [0]"
  by (auto simp: variant_step_def variant_targets_def target_horn_clauses_def)

theorem variant_targets_correct_witness:
  "(0::int) < 2
   \<and> variant_step 2 2 = Some 1
   \<and> variant_targets 2 2 = Some [0, 1]
   \<and> variant_step 2 1 = Some 2
   \<and> variant_targets 2 1 = Some [0]"
  using variant_targets_correct [of 2 2]
  by (simp add: variant_targets_def target_horn_clauses_def upto.simps)

section \<open>Properties of the Horn-count adjuster\<close>

lemma map_first_0 [simp]: "map_first P f 0 xs = xs"
  by (induction xs) auto

lemma map_first_none: "filter P xs = [] \<Longrightarrow> map_first P f n xs = xs"
  by (induction xs arbitrary: n) (auto split: if_splits)

lemma length_map_first [simp]: "length (map_first P f n xs) = length xs"
  by (induction xs arbitrary: n) auto

lemma filter_map_first:
  "(\<And>x. P x \<Longrightarrow> \<not> P (f x)) \<Longrightarrow> filter P (map_first P f n xs) = drop n (filter P xs)"
proof (induction xs arbitrary: n)
  case Nil
  then show ?case by simp
next
  case (Cons x xs)
  then show ?case by (cases n) auto
qed

lemma map_first_Suc:
  "(\<And>x. P x \<Longrightarrow> \<not> P (f x)) \<Longrightarrow> map_first P f n (map_first P f (Suc 0) xs) = map_first P f (Suc n) xs"
  by (induction xs arbitrary: n) auto

lemma list_index_first:
  "filter P xs = l # ls \<Longrightarrow>
     \<exists>i. list_index xs l = Some i \<and> xs[i := f l] = map_first P f (Suc 0) xs"
proof (induction xs)
  case Nil
  then show ?case by simp
next
  case (Cons x xs)
  show ?case
  proof (cases "P x")
    case True
    with Cons.prems show ?thesis by simp
  next
    case False
    with Cons.prems have fl: "filter P xs = l # ls" by simp
    then have "l \<in> set (filter P xs)" by simp
    then have "P l" by simp
    with False have "x \<noteq> l" by auto
    with Cons.IH [OF fl] False show ?thesis by auto
  qed
qed

lemma nth_map_first:
  "j < length xs \<Longrightarrow>
     map_first P f n xs ! j =
       (if P (xs ! j) \<and> length (filter P (take j xs)) < n then f (xs ! j) else xs ! j)"
proof (induction xs arbitrary: n j)
  case Nil
  then show ?case by simp
next
  case (Cons x xs)
  then show ?case by (cases j) auto
qed

lemma flip_to_negative_eq:
  "flip_to_negative (take n (filter (\<lambda>l. l > 0) c)) c = Some (map_first (\<lambda>l. l > 0) uminus n c)"
proof (induction n arbitrary: c)
  case 0
  then show ?case by simp
next
  case (Suc n)
  show ?case
  proof (cases "filter (\<lambda>l. l > 0) c")
    case Nil
    then show ?thesis by (simp add: map_first_none)
  next
    case (Cons l ls)
    from list_index_first [OF Cons, of uminus] obtain i where
      i: "list_index c l = Some i" "c[i := - l] = map_first (\<lambda>l. l > 0) uminus (Suc 0) c"
      by auto
    have "filter (\<lambda>l. l > 0) (map_first (\<lambda>l. l > 0) uminus (Suc 0) c)
        = drop (Suc 0) (filter (\<lambda>l. l > 0) c)"
      by (rule filter_map_first) simp
    then have "filter (\<lambda>l. l > 0) (map_first (\<lambda>l. l > 0) uminus (Suc 0) c) = ls"
      using Cons by simp
    moreover have "map_first (\<lambda>l. l > 0) uminus n (map_first (\<lambda>l. l > 0) uminus (Suc 0) c)
        = map_first (\<lambda>l. l > 0) uminus (Suc n) c"
      by (rule map_first_Suc) simp
    ultimately show ?thesis
      using Suc.IH [of "map_first (\<lambda>l. l > 0) uminus (Suc 0) c"] Cons i by simp
  qed
qed

lemma flip_to_positive_eq:
  "flip_to_positive (take n (filter (\<lambda>l. l < 0) c)) c = Some (map_first (\<lambda>l. l < 0) abs n c)"
proof (induction n arbitrary: c)
  case 0
  then show ?case by simp
next
  case (Suc n)
  show ?case
  proof (cases "filter (\<lambda>l. l < 0) c")
    case Nil
    then show ?thesis by (simp add: map_first_none)
  next
    case (Cons l ls)
    from list_index_first [OF Cons, of abs] obtain i where
      i: "list_index c l = Some i" "c[i := abs l] = map_first (\<lambda>l. l < 0) abs (Suc 0) c"
      by auto
    have "filter (\<lambda>l. l < 0) (map_first (\<lambda>l. l < 0) abs (Suc 0) c)
        = drop (Suc 0) (filter (\<lambda>l. l < 0) c)"
      by (rule filter_map_first) simp
    then have "filter (\<lambda>l. l < 0) (map_first (\<lambda>l. l < 0) abs (Suc 0) c) = ls"
      using Cons by simp
    moreover have "map_first (\<lambda>l. l < 0) abs n (map_first (\<lambda>l. l < 0) abs (Suc 0) c)
        = map_first (\<lambda>l. l < 0) abs (Suc n) c"
      by (rule map_first_Suc) simp
    ultimately show ?thesis
      using Suc.IH [of "map_first (\<lambda>l. l < 0) abs (Suc 0) c"] Cons i by simp
  qed
qed

lemma count_horn_clauses_Cons:
  "count_horn_clauses (c # cs) = (if pos_count c \<le> 1 then 1 else 0) + count_horn_clauses cs"
  by (simp add: count_horn_clauses_length pos_count_def)

lemma non_horn_count_Cons:
  "non_horn_count (c # cs) = (if 1 < pos_count c then 1 else 0) + non_horn_count cs"
  by (simp add: non_horn_count_def)

lemma non_horn_count_nonneg: "0 \<le> non_horn_count cs"
  by (simp add: non_horn_count_def)

lemma flip_butlast_positive:
  "flip_to_negative (butlast (filter (\<lambda>l. l > 0) c)) c = Some (keep_last_positive c)"
  using flip_to_negative_eq [of "pos_count c - 1" c]
  by (simp add: butlast_conv_take keep_last_positive_def pos_count_def)

lemma pos_count_keep_last_positive:
  "1 < pos_count c \<Longrightarrow> pos_count (keep_last_positive c) = 1"
proof -
  assume a: "1 < pos_count c"
  have "filter (\<lambda>l. l > 0) (keep_last_positive c)
      = drop (pos_count c - 1) (filter (\<lambda>l. l > 0) c)"
    unfolding keep_last_positive_def by (rule filter_map_first) simp
  then show ?thesis using a by (simp add: pos_count_def)
qed

lemma increase_horn_count_general:
  "\<exists>cs' n. increase_horn_count cs hc t = Some (cs', max hc (min t (hc + non_horn_count cs)))
     \<and> n \<le> length cs
     \<and> cs' = map increase_step (take n cs) @ drop n cs
     \<and> count_horn_clauses cs' = count_horn_clauses cs + (max hc (min t (hc + non_horn_count cs)) - hc)"
proof (induction cs arbitrary: hc)
  case Nil
  show ?case by (simp add: non_horn_count_def)
next
  case (Cons c cs)
  show ?case
  proof (cases "t \<le> hc")
    case True
    have nn: "0 \<le> non_horn_count (c # cs)" by (rule non_horn_count_nonneg)
    from True nn have "max hc (min t (hc + non_horn_count (c # cs))) = hc" by simp
    with True show ?thesis by (intro exI [of _ "c # cs"] exI [of _ 0]) simp
  next
    case False
    show ?thesis
    proof (cases "1 < pos_count c")
      case nonhorn: True
      from Cons.IH [of "hc + 1"] obtain cs' n where
        ih: "increase_horn_count cs (hc + 1) t = Some (cs', max (hc + 1) (min t (hc + 1 + non_horn_count cs)))"
            "n \<le> length cs" "cs' = map increase_step (take n cs) @ drop n cs"
            "count_horn_clauses cs' = count_horn_clauses cs + (max (hc + 1) (min t (hc + 1 + non_horn_count cs)) - (hc + 1))"
        by blast
      have nn: "0 \<le> non_horn_count cs" by (rule non_horn_count_nonneg)
      have m: "max (hc + 1) (min t (hc + 1 + non_horn_count cs))
             = max hc (min t (hc + non_horn_count (c # cs)))"
        using False nonhorn nn by (simp add: non_horn_count_Cons)
      have run: "increase_horn_count (c # cs) hc t
          = Some (keep_last_positive c # cs', max hc (min t (hc + non_horn_count (c # cs))))"
        using False nonhorn ih(1) m by (simp add: flip_butlast_positive pos_count_def)
      have shape: "keep_last_positive c # cs' = map increase_step (take (Suc n) (c # cs)) @ drop (Suc n) (c # cs)"
        using nonhorn ih(3) by (simp add: increase_step_def)
      have cnt: "count_horn_clauses (keep_last_positive c # cs')
          = count_horn_clauses (c # cs) + (max hc (min t (hc + non_horn_count (c # cs))) - hc)"
        using nonhorn ih(4) m pos_count_keep_last_positive [OF nonhorn]
        by (simp add: count_horn_clauses_Cons)
      from run shape cnt ih(2) show ?thesis
        by (intro exI [of _ "keep_last_positive c # cs'"] exI [of _ "Suc n"]) simp
    next
      case horn: False
      from Cons.IH [of hc] obtain cs' n where
        ih: "increase_horn_count cs hc t = Some (cs', max hc (min t (hc + non_horn_count cs)))"
            "n \<le> length cs" "cs' = map increase_step (take n cs) @ drop n cs"
            "count_horn_clauses cs' = count_horn_clauses cs + (max hc (min t (hc + non_horn_count cs)) - hc)"
        by blast
      have m: "non_horn_count (c # cs) = non_horn_count cs"
        using horn by (simp add: non_horn_count_Cons)
      have run: "increase_horn_count (c # cs) hc t
          = Some (c # cs', max hc (min t (hc + non_horn_count (c # cs))))"
        using False horn ih(1) m by (simp add: pos_count_def)
      have shape: "c # cs' = map increase_step (take (Suc n) (c # cs)) @ drop (Suc n) (c # cs)"
        using horn ih(3) by (simp add: increase_step_def)
      have cnt: "count_horn_clauses (c # cs')
          = count_horn_clauses (c # cs) + (max hc (min t (hc + non_horn_count (c # cs))) - hc)"
        using ih(4) m by (simp add: count_horn_clauses_Cons)
      from run shape cnt ih(2) show ?thesis
        by (intro exI [of _ "c # cs'"] exI [of _ "Suc n"]) simp
    qed
  qed
qed

lemma eligible_horn_count_Cons:
  "eligible_horn_count (c # cs) =
     (if pos_count c \<le> 1 \<and> 2 \<le> pos_count c + min 2 (neg_count c) then 1 else 0)
     + eligible_horn_count cs"
  by (simp add: eligible_horn_count_def)

lemma eligible_horn_count_nonneg: "0 \<le> eligible_horn_count cs"
  by (simp add: eligible_horn_count_def)

lemma pos_count_map_first_abs:
  "pos_count (map_first (\<lambda>l. l < 0) abs n c) = pos_count c + min n (neg_count c)"
  by (induction c arbitrary: n) (auto simp: pos_count_def neg_count_def)

lemma pos_count_flip_two_negatives:
  "pos_count (flip_two_negatives c) = pos_count c + min 2 (neg_count c)"
  by (simp add: flip_two_negatives_def pos_count_map_first_abs)

lemma flip_two_negative_literals:
  "flip_to_positive (take 2 (filter (\<lambda>l. l < 0) c)) c = Some (flip_two_negatives c)"
  by (simp add: flip_two_negatives_def flip_to_positive_eq)

lemma decrease_horn_count_prefix:
  "\<exists>cs' n. decrease_horn_count cs hc t = Some (cs', min hc (max t (hc - eligible_horn_count cs)))
     \<and> n \<le> length cs
     \<and> cs' = map decrease_step (take n cs) @ drop n cs
     \<and> count_horn_clauses cs' =
         count_horn_clauses cs - (hc - min hc (max t (hc - eligible_horn_count cs)))
     \<and> (\<forall>m<n. t < hc - eligible_horn_count (take m cs))
     \<and> (n < length cs \<longrightarrow> hc - eligible_horn_count (take n cs) \<le> t)"
proof (induction cs arbitrary: hc)
  case Nil
  show ?case by (simp add: eligible_horn_count_def)
next
  case (Cons c cs)
  show ?case
  proof (cases "hc \<le> t")
    case True
    then have "min hc (max t (hc - eligible_horn_count (c # cs))) = hc" by simp
    with True show ?thesis
      by (intro exI [of _ "c # cs"] exI [of _ 0]) (simp add: eligible_horn_count_def)
  next
    case False
    define hc' where
      "hc' = (if 2 \<le> pos_count (decrease_step c) \<and> pos_count c \<le> 1 then hc - 1 else hc)"
    from Cons.IH [of hc'] obtain cs' n where
      ih: "decrease_horn_count cs hc' t = Some (cs', min hc' (max t (hc' - eligible_horn_count cs)))"
          "n \<le> length cs" "cs' = map decrease_step (take n cs) @ drop n cs"
          "count_horn_clauses cs' =
             count_horn_clauses cs - (hc' - min hc' (max t (hc' - eligible_horn_count cs)))"
          "\<forall>m<n. t < hc' - eligible_horn_count (take m cs)"
          "n < length cs \<longrightarrow> hc' - eligible_horn_count (take n cs) \<le> t"
      by blast
    have nn: "0 \<le> eligible_horn_count cs" by (rule eligible_horn_count_nonneg)
    have hc'_eq: "hc - eligible_horn_count (c # xs) = hc' - eligible_horn_count xs" for xs
      by (auto simp: hc'_def eligible_horn_count_Cons decrease_step_def
            pos_count_flip_two_negatives)
    have m: "min hc' (max t (hc' - eligible_horn_count cs))
           = min hc (max t (hc - eligible_horn_count (c # cs)))"
      using False nn
      by (auto simp: hc'_def eligible_horn_count_Cons decrease_step_def
            pos_count_flip_two_negatives)
    have step: "decrease_horn_count (c # cs) hc t
        = map_option (\<lambda>(rest', h). (decrease_step c # rest', h))
            (decrease_horn_count cs hc' t)"
    proof (cases "pos_count c \<le> 1")
      case True
      then show ?thesis
        using False
        by (simp add: flip_two_negative_literals decrease_step_def hc'_def
              pos_count_def)
    next
      case nonhorn: False
      then show ?thesis
        using False
        by (simp add: decrease_step_def hc'_def pos_count_def)
    qed
    have run: "decrease_horn_count (c # cs) hc t
        = Some (decrease_step c # cs', min hc (max t (hc - eligible_horn_count (c # cs))))"
      unfolding step using ih(1) m by simp
    have shape: "decrease_step c # cs'
        = map decrease_step (take (Suc n) (c # cs)) @ drop (Suc n) (c # cs)"
      using ih(3) by simp
    have cnt: "count_horn_clauses (decrease_step c # cs')
        = count_horn_clauses (c # cs)
          - (hc - min hc (max t (hc - eligible_horn_count (c # cs))))"
      using ih(4) m
      by (auto simp: count_horn_clauses_Cons hc'_def decrease_step_def
            pos_count_flip_two_negatives)
    have before: "t < hc - eligible_horn_count (take m (c # cs))" if "m < Suc n" for m
    proof (cases m)
      case 0
      with False show ?thesis by (simp add: eligible_horn_count_def)
    next
      case (Suc k)
      with that have "k < n" by simp
      with ih(5) have "t < hc' - eligible_horn_count (take k cs)" by blast
      then show ?thesis unfolding Suc take_Suc_Cons hc'_eq .
    qed
    have stop: "Suc n < length (c # cs) \<longrightarrow>
        hc - eligible_horn_count (take (Suc n) (c # cs)) \<le> t"
      using ih(6) unfolding take_Suc_Cons hc'_eq by simp
    from run shape cnt ih(2) before stop show ?thesis
      by (intro exI [of _ "decrease_step c # cs'"] exI [of _ "Suc n"]) simp
  qed
qed

lemma ex_later_conv:
  "(\<exists>x\<in>set (drop (Suc j) c). P x) \<longleftrightarrow> (\<exists>k. j < k \<and> k < length c \<and> P (c ! k))"
proof
  assume "\<exists>x\<in>set (drop (Suc j) c). P x"
  then obtain i where i: "i < length (drop (Suc j) c)" "P (drop (Suc j) c ! i)"
    by (auto simp: in_set_conv_nth)
  then have "j < Suc j + i \<and> Suc j + i < length c \<and> P (c ! (Suc j + i))"
    by auto
  then show "\<exists>k. j < k \<and> k < length c \<and> P (c ! k)" by blast
next
  assume "\<exists>k. j < k \<and> k < length c \<and> P (c ! k)"
  then obtain k where k: "j < k" "k < length c" "P (c ! k)" by blast
  then have "k - Suc j < length (drop (Suc j) c)" "drop (Suc j) c ! (k - Suc j) = c ! k"
    by auto
  with k(3) show "\<exists>x\<in>set (drop (Suc j) c). P x"
    by (metis nth_mem)
qed

lemma filter_split_at:
  "j < length c \<Longrightarrow>
     filter P c = filter P (take j c) @ filter P [c ! j] @ filter P (drop (Suc j) c)"
  by (metis Cons_nth_drop_Suc append_Cons append_Nil append_take_drop_id filter_append)

lemma keep_last_positive_kept: "only_last_positive_kept c (keep_last_positive c)"
proof -
  have "keep_last_positive c ! j =
        (if 0 < c ! j \<and> (\<exists>k. j < k \<and> k < length c \<and> 0 < c ! k) then - (c ! j) else c ! j)"
    if j: "j < length c" for j
  proof (cases "0 < c ! j")
    case False
    with j show ?thesis by (simp add: keep_last_positive_def nth_map_first)
  next
    case True
    have "pos_count c = length (filter (\<lambda>l. l > 0) (take j c)) + 1
            + length (filter (\<lambda>l. l > 0) (drop (Suc j) c))"
      unfolding pos_count_def using filter_split_at [OF j, of "\<lambda>l. l > 0"] True by simp
    then have "length (filter (\<lambda>l. l > 0) (take j c)) < pos_count c - 1
        \<longleftrightarrow> filter (\<lambda>l. l > 0) (drop (Suc j) c) \<noteq> []"
      by auto
    also have "\<dots> \<longleftrightarrow> (\<exists>x\<in>set (drop (Suc j) c). 0 < x)"
      by (simp add: filter_empty_conv)
    also have "\<dots> \<longleftrightarrow> (\<exists>k. j < k \<and> k < length c \<and> 0 < c ! k)"
      by (rule ex_later_conv)
    finally show ?thesis
      using j True by (simp add: keep_last_positive_def nth_map_first)
  qed
  then show ?thesis by (simp add: only_last_positive_kept_def keep_last_positive_def)
qed

lemma length_filter_take_card:
  "j \<le> length c \<Longrightarrow> length (filter P (take j c)) = card {k. k < j \<and> P (c ! k)}"
proof -
  assume j: "j \<le> length c"
  have "{i. i < length (take j c) \<and> P (take j c ! i)} = {k. k < j \<and> P (c ! k)}"
    using j by auto
  then show ?thesis by (simp add: length_filter_conv_card)
qed

lemma flip_two_negatives_flipped: "first_two_negatives_flipped c (flip_two_negatives c)"
  by (simp add: first_two_negatives_flipped_def flip_two_negatives_def nth_map_first
        length_filter_take_card)

lemma nth_prefix_map:
  "n \<le> length cs \<Longrightarrow> i < length cs \<Longrightarrow>
     (map f (take n cs) @ drop n cs) ! i = (if i < n then f (cs ! i) else cs ! i)"
  by (auto simp: nth_append)

text \<open>
  Claim C2. When the Horn count \<open>c\<close> of the clause list is below the target \<open>t\<close>, the
  increase loop returns, the Horn count of the resulting clause list is
  \<open>min t (c + e)\<close> with \<open>e\<close> the number of clauses with more than one positive literal,
  and the running counter ends at that value. The loop works on a prefix of the list
  (\<open>n\<close> clauses): each clause of the prefix with more than one positive literal has
  every positive literal but the last in clause order negated and is left with exactly
  one positive literal; every other clause is unchanged.
\<close>

theorem increase_pass_postcondition:
  assumes "count_horn_clauses cs < t"
  shows "\<exists>cs' n. adjust_horn_count cs t = Some cs'
     \<and> increase_horn_count cs (count_horn_clauses cs) t = Some (cs', count_horn_clauses cs')
     \<and> count_horn_clauses cs' = min t (count_horn_clauses cs + non_horn_count cs)
     \<and> length cs' = length cs \<and> n \<le> length cs
     \<and> (\<forall>i<length cs.
           if i < n \<and> 1 < pos_count (cs ! i)
           then only_last_positive_kept (cs ! i) (cs' ! i) \<and> pos_count (cs' ! i) = 1
           else cs' ! i = cs ! i)"
proof -
  let ?c = "count_horn_clauses cs"
  from increase_horn_count_general [of cs ?c t] obtain cs' n where
    r: "increase_horn_count cs ?c t = Some (cs', max ?c (min t (?c + non_horn_count cs)))"
       "n \<le> length cs" "cs' = map increase_step (take n cs) @ drop n cs"
       "count_horn_clauses cs' = ?c + (max ?c (min t (?c + non_horn_count cs)) - ?c)"
    by blast
  have nn: "0 \<le> non_horn_count cs" by (rule non_horn_count_nonneg)
  have m: "max ?c (min t (?c + non_horn_count cs)) = min t (?c + non_horn_count cs)"
    using assms nn by simp
  have cnt: "count_horn_clauses cs' = min t (?c + non_horn_count cs)"
    using r(4) m by simp
  have run: "increase_horn_count cs ?c t = Some (cs', count_horn_clauses cs')"
    using r(1) m cnt by simp
  have adj: "adjust_horn_count cs t = Some cs'"
    using assms run by (simp add: adjust_horn_count_def)
  have len: "length cs' = length cs"
    using r(2,3) by simp
  have each: "if i < n \<and> 1 < pos_count (cs ! i)
           then only_last_positive_kept (cs ! i) (cs' ! i) \<and> pos_count (cs' ! i) = 1
           else cs' ! i = cs ! i" if i: "i < length cs" for i
  proof -
    have "cs' ! i = (if i < n then increase_step (cs ! i) else cs ! i)"
      unfolding r(3) using r(2) i by (rule nth_prefix_map)
    then show ?thesis
      by (simp add: increase_step_def keep_last_positive_kept pos_count_keep_last_positive)
  qed
  from adj run cnt len r(2) each show ?thesis by blast
qed

theorem increase_pass_postcondition_witness:
  "count_horn_clauses [[1, 2], [-1, -2, 3], [1, 2, 3]] < 2
   \<and> adjust_horn_count [[1, 2], [-1, -2, 3], [1, 2, 3]] 2 = Some [[-1, 2], [-1, -2, 3], [1, 2, 3]]
   \<and> count_horn_clauses [[-1, 2], [-1, -2, 3], [1, 2, 3]]
       = min 2 (count_horn_clauses [[1, 2], [-1, -2, 3], [1, 2, 3]]
                + non_horn_count [[1, 2], [-1, -2, 3], [1, 2, 3]])"
proof -
  let ?cs = "[[1, 2], [-1, -2, 3], [1, 2, 3 :: int]]"
  have h: "count_horn_clauses ?cs < 2"
    by (simp add: count_horn_clauses_def)
  have e: "adjust_horn_count ?cs 2 = Some [[-1, 2], [-1, -2, 3], [1, 2, 3]]"
    by (simp add: adjust_horn_count_def count_horn_clauses_def)
  from increase_pass_postcondition [OF h] obtain cs' where
    r: "adjust_horn_count ?cs 2 = Some cs'"
       "count_horn_clauses cs' = min 2 (count_horn_clauses ?cs + non_horn_count ?cs)"
    by blast
  from r(1) e have "cs' = [[-1, 2], [-1, -2, 3], [1, 2, 3]]" by simp
  with h e r(2) show ?thesis by simp
qed

text \<open>
  Claim C3. When the Horn count \<open>c\<close> of the clause list is above the target \<open>t\<close>, the
  decrease loop returns, the Horn count of the resulting clause list is
  \<open>max t (c - e)\<close> with \<open>e\<close> the number of Horn clauses whose positive literals reach
  two or more once up to two negative literals are made positive, and the running counter
  ends at that value. The loop visits the clauses in order and stops at position \<open>n\<close>:
  before every position below \<open>n\<close> the running count (\<open>c\<close> minus the number of such
  clauses among the earlier ones) is still above \<open>t\<close>, and unless \<open>n\<close> is the end of the
  list the running count at position \<open>n\<close> is at most \<open>t\<close>. Each Horn clause before
  position \<open>n\<close> has its first two negative literals in clause order (or its only one)
  made positive; every other clause, and every clause from position \<open>n\<close> on, is
  unchanged.
\<close>

theorem decrease_pass_postcondition:
  assumes "t < count_horn_clauses cs"
  shows "\<exists>cs' n. adjust_horn_count cs t = Some cs'
     \<and> decrease_horn_count cs (count_horn_clauses cs) t = Some (cs', count_horn_clauses cs')
     \<and> count_horn_clauses cs' = max t (count_horn_clauses cs - eligible_horn_count cs)
     \<and> length cs' = length cs \<and> n \<le> length cs
     \<and> (\<forall>m<n. t < count_horn_clauses cs - eligible_horn_count (take m cs))
     \<and> (n < length cs \<longrightarrow> count_horn_clauses cs - eligible_horn_count (take n cs) \<le> t)
     \<and> (\<forall>i<length cs.
           if i < n \<and> pos_count (cs ! i) \<le> 1
           then first_two_negatives_flipped (cs ! i) (cs' ! i)
           else cs' ! i = cs ! i)"
proof -
  let ?c = "count_horn_clauses cs"
  from decrease_horn_count_prefix [of cs ?c t] obtain cs' n where
    r: "decrease_horn_count cs ?c t = Some (cs', min ?c (max t (?c - eligible_horn_count cs)))"
       "n \<le> length cs" "cs' = map decrease_step (take n cs) @ drop n cs"
       "count_horn_clauses cs' = ?c - (?c - min ?c (max t (?c - eligible_horn_count cs)))"
       "\<forall>m<n. t < ?c - eligible_horn_count (take m cs)"
       "n < length cs \<longrightarrow> ?c - eligible_horn_count (take n cs) \<le> t"
    by blast
  have nn: "0 \<le> eligible_horn_count cs" by (rule eligible_horn_count_nonneg)
  have m: "min ?c (max t (?c - eligible_horn_count cs)) = max t (?c - eligible_horn_count cs)"
    using assms nn by simp
  have cnt: "count_horn_clauses cs' = max t (?c - eligible_horn_count cs)"
    using r(4) m by simp
  have run: "decrease_horn_count cs ?c t = Some (cs', count_horn_clauses cs')"
    using r(1) m cnt by simp
  have adj: "adjust_horn_count cs t = Some cs'"
    using assms run by (simp add: adjust_horn_count_def)
  have len: "length cs' = length cs"
    using r(2,3) by simp
  have each: "if i < n \<and> pos_count (cs ! i) \<le> 1
           then first_two_negatives_flipped (cs ! i) (cs' ! i)
           else cs' ! i = cs ! i" if i: "i < length cs" for i
  proof -
    have "cs' ! i = (if i < n then decrease_step (cs ! i) else cs ! i)"
      unfolding r(3) using r(2) i by (rule nth_prefix_map)
    then show ?thesis
      by (simp add: decrease_step_def flip_two_negatives_flipped)
  qed
  from adj run cnt len r(2) r(5) r(6) each show ?thesis by blast
qed

theorem decrease_pass_postcondition_witness:
  "2 < count_horn_clauses [[-1, -2], [-3], [-4, -5]]
   \<and> adjust_horn_count [[-1, -2], [-3], [-4, -5]] 2 = Some [[1, 2], [-3], [-4, -5]]
   \<and> count_horn_clauses [[1, 2], [-3], [-4, -5]]
       = max 2 (count_horn_clauses [[-1, -2], [-3], [-4, -5]]
                - eligible_horn_count [[-1, -2], [-3], [-4, -5]])
   \<and> eligible_horn_count [[-1, -2], [-3], [-4, -5]] = 2
   \<and> count_horn_clauses [[-1, -2], [-3], [-4, -5]]
       - eligible_horn_count (take 1 [[-1, -2], [-3], [-4, -5]]) \<le> 2"
proof -
  let ?cs = "[[-1, -2], [-3], [-4, -5 :: int]]"
  have h: "2 < count_horn_clauses ?cs"
    by (simp add: count_horn_clauses_def)
  have e: "adjust_horn_count ?cs 2 = Some [[1, 2], [-3], [-4, -5]]"
    by (simp add: adjust_horn_count_def count_horn_clauses_def)
  have el: "eligible_horn_count ?cs = 2"
    by (simp add: eligible_horn_count_def pos_count_def neg_count_def)
  have st: "count_horn_clauses ?cs - eligible_horn_count (take 1 ?cs) \<le> 2"
    by (simp add: count_horn_clauses_def eligible_horn_count_def pos_count_def neg_count_def)
  from decrease_pass_postcondition [OF h] obtain cs' where
    r: "adjust_horn_count ?cs 2 = Some cs'"
       "count_horn_clauses cs' = max 2 (count_horn_clauses ?cs - eligible_horn_count ?cs)"
    by blast
  from r(1) e have "cs' = [[1, 2], [-3], [-4, -5]]" by simp
  with h e r(2) el st show ?thesis by simp
qed

section \<open>Properties of the assignment builder\<close>

lemma map_of_None_conv: "map_of sol v = None \<longleftrightarrow> v \<notin> set (map fst sol)"
  by (simp add: map_of_eq_None_iff)

lemma keys_ok_full:
  assumes "keys_ok nv sol" "int (length sol) = nv"
  shows "set (map fst sol) = {1..nv}"
proof -
  from assms(1) have d: "distinct (map fst sol)" and sub: "set (map fst sol) \<subseteq> {1..nv}"
    by (simp_all add: keys_ok_def)
  have "card (set (map fst sol)) = length sol"
    using distinct_card [OF d] by simp
  moreover have "card {1..nv} = length sol"
    using assms(2) by auto
  ultimately show ?thesis
    using sub by (simp add: card_subset_eq)
qed

lemma add_first_present:
  "abs ` set ls \<subseteq> set (map fst sol) \<Longrightarrow> add_first ls sol = sol"
  by (induction ls arbitrary: sol) (auto simp: map_of_None_conv)

lemma keys_ok_snoc:
  "keys_ok nv sol \<Longrightarrow> map_of sol v = None \<Longrightarrow> 1 \<le> v \<Longrightarrow> v \<le> nv \<Longrightarrow>
     keys_ok nv (sol @ [(v, b)])"
  by (auto simp: keys_ok_def map_of_None_conv)

lemma keys_ok_add_first:
  "keys_ok nv sol \<Longrightarrow> \<forall>l\<in>set ls. 1 \<le> abs l \<and> abs l \<le> nv \<Longrightarrow>
     keys_ok nv (add_first ls sol)"
proof (induction ls arbitrary: sol)
  case Nil
  then show ?case by simp
next
  case (Cons l ls)
  show ?case
  proof (cases "map_of sol (abs l) = None")
    case True
    with Cons.prems have "keys_ok nv (sol @ [(abs l, l > 0)])"
      by (intro keys_ok_snoc) auto
    with Cons True show ?thesis by simp
  next
    case False
    then obtain y where "map_of sol (abs l) = Some y" by auto
    with Cons show ?thesis by simp
  qed
qed

lemma scan_clause_add_first:
  "keys_ok nv sol \<Longrightarrow> \<forall>l\<in>set c. 1 \<le> abs l \<and> abs l \<le> nv \<Longrightarrow>
     scan_clause c nv sol = add_first c sol"
proof (induction c arbitrary: sol)
  case Nil
  then show ?case by simp
next
  case (Cons l ls)
  show ?case
  proof (cases "map_of sol (abs l) = None")
    case True
    let ?sol = "sol @ [(abs l, l > 0)]"
    from Cons.prems True have ok: "keys_ok nv ?sol"
      by (intro keys_ok_snoc) auto
    show ?thesis
    proof (cases "int (length ?sol) = nv")
      case full: True
      from keys_ok_full [OF ok full] Cons.prems(2)
      have "abs ` set ls \<subseteq> set (map fst ?sol)" by auto
      then have "add_first ls ?sol = ?sol" by (rule add_first_present)
      with True full show ?thesis by (simp add: Let_def)
    next
      case False
      with True Cons.IH [OF ok] Cons.prems(2) show ?thesis by (simp add: Let_def)
    qed
  next
    case False
    then obtain y where "map_of sol (abs l) = Some y" by auto
    with Cons show ?thesis by (simp add: Let_def)
  qed
qed

lemma add_first_append: "add_first (xs @ ys) sol = add_first ys (add_first xs sol)"
  by (induction xs arbitrary: sol) auto

lemma scan_clauses_add_first:
  "keys_ok nv sol \<Longrightarrow> vars_in_range cs nv \<Longrightarrow>
     scan_clauses cs nv sol = add_first (concat cs) sol"
proof (induction cs arbitrary: sol)
  case Nil
  then show ?case by simp
next
  case (Cons c cs)
  from Cons.prems(2) have c: "\<forall>l\<in>set c. 1 \<le> abs l \<and> abs l \<le> nv"
    and cs: "vars_in_range cs nv"
    by (simp_all add: vars_in_range_def)
  let ?sol = "add_first c sol"
  have sc: "scan_clause c nv sol = ?sol"
    using Cons.prems(1) c by (rule scan_clause_add_first)
  have ok: "keys_ok nv ?sol"
    using Cons.prems(1) c by (rule keys_ok_add_first)
  show ?case
  proof (cases "int (length ?sol) = nv")
    case True
    from keys_ok_full [OF ok True] cs
    have "abs ` set (concat cs) \<subseteq> set (map fst ?sol)"
      by (auto simp: vars_in_range_def)
    then have "add_first (concat cs) ?sol = ?sol" by (rule add_first_present)
    with True sc show ?thesis by (simp add: Let_def add_first_append)
  next
    case False
    with sc Cons.IH [OF ok cs] show ?thesis by (simp add: Let_def add_first_append)
  qed
qed

lemma map_of_snoc:
  "map_of (sol @ [(k, b)]) v =
     (case map_of sol v of Some x \<Rightarrow> Some x | None \<Rightarrow> if v = k then Some b else None)"
  by (induction sol) auto

lemma map_of_add_first:
  "map_of (add_first ls sol) v =
     (case map_of sol v of
        Some b \<Rightarrow> Some b
      | None \<Rightarrow> map_option (\<lambda>l. l > 0) (find (\<lambda>l. abs l = v) ls))"
proof (induction ls arbitrary: sol)
  case Nil
  then show ?case by (simp split: option.splits)
next
  case (Cons l ls)
  then show ?case
    by (auto simp: map_of_snoc split: option.splits)
qed

lemma keys_add_first:
  "fst ` set (add_first ls sol) = fst ` set sol \<union> abs ` set ls"
  by (induction ls arbitrary: sol) (auto simp: map_of_None_conv)

lemma keys_fill_unset:
  "fst ` set (fill_unset vs ch k sol) = fst ` set sol \<union> set vs"
  by (induction vs arbitrary: k sol) (auto simp: map_of_None_conv)

lemma distinct_fill_unset:
  "distinct (map fst sol) \<Longrightarrow> distinct (map fst (fill_unset vs ch k sol))"
  by (induction vs arbitrary: k sol) (auto simp: map_of_None_conv)

lemma map_of_fill_unset_old:
  "map_of sol v = Some b \<Longrightarrow> map_of (fill_unset vs ch k sol) v = Some b"
  by (induction vs arbitrary: k sol) (auto simp: map_of_snoc)

lemma map_of_fill_unset_new:
  "distinct vs \<Longrightarrow> map_of sol v = None \<Longrightarrow> v \<in> set vs \<Longrightarrow>
     map_of (fill_unset vs ch k sol) v =
       Some (ch (k + length (filter (\<lambda>u. map_of sol u = None) (takeWhile (\<lambda>u. u \<noteq> v) vs))))"
proof (induction vs arbitrary: k sol)
  case Nil
  then show ?case by simp
next
  case (Cons u vs)
  show ?case
  proof (cases "u = v")
    case True
    have "map_of (sol @ [(v, ch k)]) v = Some (ch k)"
      unfolding map_of_snoc using Cons.prems(2) by simp
    then have "map_of (fill_unset vs ch (Suc k) (sol @ [(v, ch k)])) v = Some (ch k)"
      by (rule map_of_fill_unset_old)
    with True Cons.prems(2) show ?thesis by simp
  next
    case False
    with Cons.prems have v: "v \<in> set vs" and d: "distinct vs" and u: "u \<notin> set vs" by auto
    show ?thesis
    proof (cases "map_of sol u = None")
      case unset: True
      let ?sol = "sol @ [(u, ch k)]"
      have n: "map_of ?sol v = None"
        using Cons.prems(2) False by (simp add: map_of_snoc)
      have "filter (\<lambda>w. map_of ?sol w = None) (takeWhile (\<lambda>w. w \<noteq> v) vs)
          = filter (\<lambda>w. map_of sol w = None) (takeWhile (\<lambda>w. w \<noteq> v) vs)"
        using u by (intro filter_cong refl) (auto simp: map_of_snoc dest: set_takeWhileD split: option.splits)
      with Cons.IH [OF d n v, of "Suc k"] unset False show ?thesis by simp
    next
      case isset: False
      then obtain y where "map_of sol u = Some y" by auto
      with Cons.IH [OF d Cons.prems(2) v, of k] False show ?thesis by simp
    qed
  qed
qed

lemma takeWhile_upto:
  "1 \<le> v \<Longrightarrow> v \<le> nv \<Longrightarrow> takeWhile (\<lambda>u. u \<noteq> v) [1..nv] = [1..v - 1]"
proof -
  assume a: "1 \<le> v" "v \<le> nv"
  then have split: "[1..nv] = [1..v - 1] @ v # [v + 1..nv]"
    by (metis upto_split3)
  have "takeWhile (\<lambda>u. u \<noteq> v) ([1..v - 1] @ v # [v + 1..nv])
      = [1..v - 1] @ takeWhile (\<lambda>u. u \<noteq> v) (v # [v + 1..nv])"
    by (rule takeWhile_append2) auto
  then show ?thesis unfolding split [symmetric] by simp
qed

lemma scan_clauses_start:
  "vars_in_range cs nv \<Longrightarrow> scan_clauses cs nv [] = add_first (concat cs) []"
  by (rule scan_clauses_add_first) (simp_all add: keys_ok_def)

lemma keys_scan_clauses:
  "vars_in_range cs nv \<Longrightarrow> fst ` set (scan_clauses cs nv []) = abs ` set (concat cs)"
  unfolding keys_add_first scan_clauses_start by simp

lemma distinct_scan_clauses:
  "vars_in_range cs nv \<Longrightarrow> distinct (map fst (scan_clauses cs nv []))"
proof -
  assume a: "vars_in_range cs nv"
  have "keys_ok nv (add_first (concat cs) [])"
    using a by (intro keys_ok_add_first) (auto simp: keys_ok_def vars_in_range_def)
  then show ?thesis using a by (simp add: scan_clauses_start keys_ok_def)
qed

lemma generate_solution_keys:
  assumes "vars_in_range cs nv"
  shows "fst ` set (generate_solution cs nv ch) = {1..nv}"
proof -
  have "abs ` set (concat cs) \<subseteq> {1..nv}"
    using assms by (auto simp: vars_in_range_def)
  moreover have "fst ` set (generate_solution cs nv ch) = abs ` set (concat cs) \<union> {1..nv}"
    unfolding generate_solution_def keys_fill_unset keys_scan_clauses [OF assms] by simp
  ultimately show ?thesis by blast
qed

lemma generate_solution_distinct:
  "vars_in_range cs nv \<Longrightarrow> distinct (map fst (generate_solution cs nv ch))"
  by (simp add: generate_solution_def distinct_fill_unset distinct_scan_clauses)

lemma generate_solution_first_occurrence:
  assumes "vars_in_range cs nv" "i < length (concat cs)"
    "\<forall>j<i. abs (concat cs ! j) \<noteq> abs (concat cs ! i)"
  shows "map_of (generate_solution cs nv ch) (abs (concat cs ! i)) = Some (concat cs ! i > 0)"
proof -
  let ?L = "concat cs"
  have "find (\<lambda>l. abs l = abs (?L ! i)) ?L = Some (?L ! i)"
    unfolding find_Some_iff using assms(2,3) by blast
  then have "map_of (scan_clauses cs nv []) (abs (?L ! i)) = Some (?L ! i > 0)"
    using assms(1) by (simp add: scan_clauses_start map_of_add_first)
  then show ?thesis
    unfolding generate_solution_def by (rule map_of_fill_unset_old)
qed

lemma length_filter_upto:
  "length (filter P [1..v - 1]) = card {u. 1 \<le> u \<and> u < v \<and> P u}"
proof -
  have "{x. P x} \<inter> set [1..v - 1] = {u. 1 \<le> u \<and> u < v \<and> P u}" by auto
  then show ?thesis by (simp add: distinct_length_filter)
qed

lemma generate_solution_random:
  assumes "vars_in_range cs nv" "1 \<le> v" "v \<le> nv" "v \<notin> abs ` set (concat cs)"
  shows "map_of (generate_solution cs nv ch) v =
           Some (ch (card {u. 1 \<le> u \<and> u < v \<and> u \<notin> abs ` set (concat cs)}))"
proof -
  let ?sol = "scan_clauses cs nv []"
  have unset: "map_of ?sol u = None \<longleftrightarrow> u \<notin> abs ` set (concat cs)" for u
    unfolding map_of_eq_None_iff keys_scan_clauses [OF assms(1)] by (rule refl)
  have "map_of (fill_unset [1..nv] ch 0 ?sol) v =
        Some (ch (0 + length (filter (\<lambda>u. map_of ?sol u = None)
                                (takeWhile (\<lambda>u. u \<noteq> v) [1..nv]))))"
    using assms(2,3,4) by (intro map_of_fill_unset_new) (simp_all add: unset)
  then show ?thesis
    using assms(2,3)
    by (simp add: generate_solution_def takeWhile_upto length_filter_upto unset)
qed

text \<open>
  Claim C7. For a formula whose variables all lie in \<open>1 .. num_vars\<close>,
  \<^const>\<open>generate_solution\<close> returns a dictionary with no key twice whose keys are exactly
  \<open>1 .. num_vars\<close>. For every literal occurrence that is the first of its variable in the
  clauses read in order, the variable's entry is that literal's polarity, whatever
  follows. A variable of \<open>1 .. num_vars\<close> that occurs in no clause gets the outcome of a
  call of the random source: the \<open>k\<close>-th call, where \<open>k\<close> is the number of smaller
  variables that occur in no clause.
\<close>

theorem generate_solution_total_first_occurrence:
  assumes "vars_in_range cs nv"
  shows "distinct (map fst (generate_solution cs nv ch))
     \<and> dom (map_of (generate_solution cs nv ch)) = {1..nv}
     \<and> (\<forall>i<length (concat cs).
           (\<forall>j<i. abs (concat cs ! j) \<noteq> abs (concat cs ! i)) \<longrightarrow>
           map_of (generate_solution cs nv ch) (abs (concat cs ! i)) = Some (concat cs ! i > 0))
     \<and> (\<forall>v. 1 \<le> v \<and> v \<le> nv \<and> v \<notin> abs ` set (concat cs) \<longrightarrow>
           map_of (generate_solution cs nv ch) v =
             Some (ch (card {u. 1 \<le> u \<and> u < v \<and> u \<notin> abs ` set (concat cs)})))"
proof -
  have "dom (map_of (generate_solution cs nv ch)) = {1..nv}"
    using generate_solution_keys [OF assms, of ch] by (simp add: dom_map_of_conv_image_fst)
  with generate_solution_distinct [OF assms, of ch]
    generate_solution_first_occurrence [OF assms, of _ ch]
    generate_solution_random [OF assms, of _ ch]
  show ?thesis by blast
qed

theorem generate_solution_total_first_occurrence_witness:
  "vars_in_range [[3, -1], [-3, 1, -5]] 6
   \<and> generate_solution [[3, -1], [-3, 1, -5]] 6 (\<lambda>k. k = 1)
       = [(3, True), (1, False), (5, False), (2, False), (4, True), (6, False)]
   \<and> dom (map_of (generate_solution [[3, -1], [-3, 1, -5]] 6 (\<lambda>k. k = 1))) = {1..6}"
proof -
  have h: "vars_in_range [[3, -1], [-3, 1, -5]] 6"
    by (simp add: vars_in_range_def)
  have e: "generate_solution [[3, -1], [-3, 1, -5]] 6 (\<lambda>k. k = 1)
       = [(3, True), (1, False), (5, False), (2, False), (4, True), (6, False)]"
    by (simp add: generate_solution_def upto.simps)
  from generate_solution_total_first_occurrence [OF h, of "\<lambda>k. k = 1"] h e
  show ?thesis by blast
qed

section \<open>Properties of the satisfiability repairer\<close>

lemma unsatisfied_iff:
  "is_clause_satisfied c sol = Some False \<longleftrightarrow>
     (\<forall>l\<in>set c. map_of sol (abs l) = Some (\<not> l > 0))"
  by (induction c) (auto split: option.splits)

lemma satisfied_if_true_literal:
  "\<forall>l\<in>set c. map_of sol (abs l) \<noteq> None \<Longrightarrow>
   \<exists>l\<in>set c. map_of sol (abs l) = Some (l > 0) \<Longrightarrow>
     is_clause_satisfied c sol = Some True"
  by (induction c) (auto split: option.splits)

lemma satisfied_has_true_literal:
  "is_clause_satisfied c sol = Some True \<Longrightarrow> \<exists>l\<in>set c. map_of sol (abs l) = Some (l > 0)"
  by (induction c) (auto split: option.splits if_splits)

lemma is_clause_satisfied_defined:
  "\<forall>l\<in>set c. map_of sol (abs l) \<noteq> None \<Longrightarrow> \<exists>b. is_clause_satisfied c sol = Some b"
  by (induction c) (auto split: option.splits)

lemma negate_false_positives_satisfied:
  "is_clause_satisfied c sol = Some True \<Longrightarrow> negate_false_positives ps sol c = Some c"
  by (induction ps) auto

lemma assert_true_negatives_guarded_satisfied:
  "is_clause_satisfied c sol = Some True \<Longrightarrow> assert_true_negatives_guarded ns sol c = Some c"
  by (induction ns) auto

lemma satisfied_after_flip:
  assumes "is_clause_satisfied (pre @ x # xs) sol = Some False"
    and "abs y = abs x" "(y > 0) \<noteq> (x > 0)"
  shows "is_clause_satisfied (pre @ y # xs) sol = Some True"
proof -
  from assms(1) have u: "\<forall>l\<in>set (pre @ x # xs). map_of sol (abs l) = Some (\<not> l > 0)"
    by (simp only: unsatisfied_iff)
  then have y: "map_of sol (abs y) = Some (y > 0)"
    using assms(2,3) by auto
  have "\<forall>l\<in>set (pre @ y # xs). map_of sol (abs l) \<noteq> None"
    using u y by auto
  moreover have "\<exists>l\<in>set (pre @ y # xs). map_of sol (abs l) = Some (l > 0)"
    using y by auto
  ultimately show ?thesis by (rule satisfied_if_true_literal)
qed

lemma negate_false_positives_unsatisfied:
  "is_clause_satisfied (pre @ xs) sol = Some False \<Longrightarrow> length pre = n \<Longrightarrow>
     negate_false_positives (filter (\<lambda>(i, lit). lit > 0) (enumerate n xs)) sol (pre @ xs)
       = Some (pre @ map_first (\<lambda>l. l > 0) uminus 1 xs)"
proof (induction xs arbitrary: n pre)
  case Nil
  then show ?case by simp
next
  case (Cons x xs)
  show ?case
  proof (cases "x > 0")
    case True
    from Cons.prems(1) have look: "map_of sol (abs x) = Some False"
      using True by (simp add: unsatisfied_iff)
    have sat: "is_clause_satisfied (pre @ (- x) # xs) sol = Some True"
      using Cons.prems(1) True by (intro satisfied_after_flip [of pre x xs]) auto
    have upd: "(pre @ x # xs)[n := - abs x] = pre @ (- x) # xs"
      using True unfolding Cons.prems(2) [symmetric] by (simp add: list_update_length)
    show ?thesis
      using True Cons.prems(1) look upd sat
      by (simp add: negate_false_positives_satisfied)
  next
    case False
    have "negate_false_positives (filter (\<lambda>(i, lit). lit > 0) (enumerate (Suc n) xs)) sol
            ((pre @ [x]) @ xs)
          = Some ((pre @ [x]) @ map_first (\<lambda>l. l > 0) uminus 1 xs)"
      using Cons.prems by (intro Cons.IH) auto
    with False show ?thesis by simp
  qed
qed

lemma assert_true_negatives_guarded_unsatisfied:
  "is_clause_satisfied (pre @ xs) sol = Some False \<Longrightarrow> length pre = n \<Longrightarrow>
     assert_true_negatives_guarded (filter (\<lambda>(i, lit). lit < 0) (enumerate n xs)) sol (pre @ xs)
       = Some (pre @ map_first (\<lambda>l. l < 0) abs 1 xs)"
proof (induction xs arbitrary: n pre)
  case Nil
  then show ?case by simp
next
  case (Cons x xs)
  show ?case
  proof (cases "x < 0")
    case True
    from Cons.prems(1) have look: "map_of sol (abs x) = Some True"
      using True by (simp add: unsatisfied_iff)
    have sat: "is_clause_satisfied (pre @ abs x # xs) sol = Some True"
      using Cons.prems(1) True by (intro satisfied_after_flip [of pre x xs]) auto
    have upd: "(pre @ x # xs)[n := abs x] = pre @ abs x # xs"
      unfolding Cons.prems(2) [symmetric] by (rule list_update_length)
    show ?thesis
      using True Cons.prems(1) look upd sat
      by (simp add: assert_true_negatives_guarded_satisfied)
  next
    case False
    have "assert_true_negatives_guarded (filter (\<lambda>(i, lit). lit < 0) (enumerate (Suc n) xs)) sol
            ((pre @ [x]) @ xs)
          = Some ((pre @ [x]) @ map_first (\<lambda>l. l < 0) abs 1 xs)"
      using Cons.prems by (intro Cons.IH) auto
    with False show ?thesis by simp
  qed
qed

lemma assert_true_negatives_unsatisfied:
  "\<forall>l\<in>set xs. map_of sol (abs l) = Some (\<not> l > 0) \<Longrightarrow> length pre = n \<Longrightarrow>
     assert_true_negatives (filter (\<lambda>(i, lit). lit < 0) (enumerate n xs)) sol (pre @ xs)
       = Some (pre @ map abs xs)"
proof (induction xs arbitrary: n pre)
  case Nil
  then show ?case by simp
next
  case (Cons x xs)
  have ih: "assert_true_negatives (filter (\<lambda>(i, lit). lit < 0) (enumerate (Suc n) xs)) sol
            ((pre @ [abs x]) @ xs)
          = Some ((pre @ [abs x]) @ map abs xs)"
    using Cons.prems by (intro Cons.IH) auto
  show ?case
  proof (cases "x < 0")
    case True
    from Cons.prems(1) have look: "map_of sol (abs x) = Some True"
      using True by simp
    have upd: "(pre @ x # xs)[n := abs x] = pre @ abs x # xs"
      unfolding Cons.prems(2) [symmetric] by (rule list_update_length)
    show ?thesis
      using True look upd ih by simp
  next
    case False
    then have "abs x = x" by simp
    with False ih show ?thesis by simp
  qed
qed

lemma length_filter_enumerate:
  "length (filter (\<lambda>(i, lit). P lit) (enumerate n xs)) = length (filter P xs)"
  by (induction xs arbitrary: n) auto

lemma length_positive_literals: "length (positive_literals c) = pos_count c"
  by (simp add: positive_literals_def pos_count_def length_filter_enumerate)

lemma negate_false_positives_clause:
  "is_clause_satisfied c sol = Some False \<Longrightarrow>
     negate_false_positives (positive_literals c) sol c
       = Some (map_first (\<lambda>l. l > 0) uminus 1 c)"
  using negate_false_positives_unsatisfied [of "[]" c sol 0]
  by (simp add: positive_literals_def)

lemma assert_true_negatives_guarded_clause:
  "is_clause_satisfied c sol = Some False \<Longrightarrow>
     assert_true_negatives_guarded (negative_literals c) sol c
       = Some (map_first (\<lambda>l. l < 0) abs 1 c)"
  using assert_true_negatives_guarded_unsatisfied [of "[]" c sol 0]
  by (simp add: negative_literals_def)

lemma assert_true_negatives_clause:
  "is_clause_satisfied c sol = Some False \<Longrightarrow>
     assert_true_negatives (negative_literals c) sol c = Some (map abs c)"
  using assert_true_negatives_unsatisfied [of c sol "[]" 0]
  by (simp add: negative_literals_def unsatisfied_iff)

lemma map_first_split:
  "\<forall>l\<in>set pre. \<not> P l \<Longrightarrow> P x \<Longrightarrow>
     map_first P f (Suc 0) (pre @ x # xs) = pre @ f x # xs"
  by (induction pre) auto

lemma map_first_one_update:
  assumes "\<exists>l\<in>set c. P l"
  shows "\<exists>j<length c. P (c ! j) \<and> (\<forall>k<j. \<not> P (c ! k))
           \<and> map_first P f (Suc 0) c = c[j := f (c ! j)]"
proof -
  from split_list_first_prop [OF assms] obtain pre x xs where
    c: "c = pre @ x # xs" and x: "P x" and pre: "\<forall>l\<in>set pre. \<not> P l"
    by blast
  have 1: "length pre < length (pre @ x # xs)" by simp
  have 2: "(pre @ x # xs) ! length pre = x" by simp
  have 3: "\<forall>k<length pre. \<not> P ((pre @ x # xs) ! k)"
    using pre by (simp add: nth_append)
  have "map_first P f (Suc 0) (pre @ x # xs) = pre @ f x # xs"
    using pre x by (rule map_first_split)
  then have 4: "map_first P f (Suc 0) (pre @ x # xs)
      = (pre @ x # xs)[length pre := f ((pre @ x # xs) ! length pre)]"
    by (simp only: 2 list_update_length)
  from 1 2 3 4 x show ?thesis
    unfolding c by (intro exI [of _ "length pre"]) simp
qed

lemma map_abs_map_first_uminus: "map abs (map_first P uminus n c) = map abs (c :: int list)"
  by (induction c arbitrary: n) auto

lemma map_abs_map_first_abs: "map abs (map_first P abs n c) = map abs (c :: int list)"
  by (induction c arbitrary: n) auto

lemma defined_map_abs:
  assumes "map abs c' = map abs c" "\<forall>l\<in>set c. map_of sol (abs l) \<noteq> None"
  shows "\<forall>l\<in>set c'. map_of sol (abs l) \<noteq> None"
proof
  fix l assume "l \<in> set c'"
  then have "abs l \<in> set (map abs c')" by simp
  then have "abs l \<in> set (map abs c)" by (simp only: assms(1))
  then obtain l' where "l' \<in> set c" "abs l' = abs l" by auto
  with assms(2) show "map_of sol (abs l) \<noteq> None" by metis
qed

lemma unsatisfied_defined:
  "is_clause_satisfied c sol = Some False \<Longrightarrow> \<forall>l\<in>set c. map_of sol (abs l) \<noteq> None"
  by (simp add: unsatisfied_iff)

lemma satisfied_negate_first_positive:
  assumes "is_clause_satisfied c sol = Some False" "\<exists>l\<in>set c. l > 0"
  shows "is_clause_satisfied (map_first (\<lambda>l. l > 0) uminus (Suc 0) c) sol = Some True"
proof -
  from split_list_first_prop [OF assms(2)] obtain pre x xs where
    c: "c = pre @ x # xs" and x: "x > 0" and pre: "\<forall>l\<in>set pre. \<not> l > 0"
    by blast
  have "is_clause_satisfied (pre @ (- x) # xs) sol = Some True"
    using assms(1) x unfolding c by (intro satisfied_after_flip [of pre x xs]) auto
  then show ?thesis
    using map_first_split [OF pre x, of uminus xs] c by simp
qed

lemma satisfied_assert_first_negative:
  assumes "is_clause_satisfied c sol = Some False" "\<exists>l\<in>set c. l < 0"
  shows "is_clause_satisfied (map_first (\<lambda>l. l < 0) abs (Suc 0) c) sol = Some True"
proof -
  from split_list_first_prop [OF assms(2)] obtain pre x xs where
    c: "c = pre @ x # xs" and x: "x < 0" and pre: "\<forall>l\<in>set pre. \<not> l < 0"
    by blast
  have "is_clause_satisfied (pre @ abs x # xs) sol = Some True"
    using assms(1) x unfolding c by (intro satisfied_after_flip [of pre x xs]) auto
  then show ?thesis
    using map_first_split [OF pre x, of abs xs] c by simp
qed

lemma satisfied_map_abs:
  assumes "is_clause_satisfied c sol = Some False" "\<exists>l\<in>set c. l < 0"
  shows "is_clause_satisfied (map abs c) sol = Some True"
proof -
  from assms(1) have u: "\<forall>l\<in>set c. map_of sol (abs l) = Some (\<not> l > 0)"
    by (simp only: unsatisfied_iff)
  from assms(2) obtain l where l: "l \<in> set c" "l < 0" by blast
  with u have "map_of sol (abs (abs l)) = Some (abs l > 0)" by auto
  then have "\<exists>l\<in>set (map abs c). map_of sol (abs l) = Some (l > 0)"
    using l(1) by auto
  moreover have "\<forall>l\<in>set (map abs c). map_of sol (abs l) \<noteq> None"
    using u by auto
  ultimately show ?thesis by (intro satisfied_if_true_literal)
qed

lemma map_abs_no_negative: "\<not> (\<exists>l\<in>set c. l < 0) \<Longrightarrow> map abs c = (c :: int list)"
  by (induction c) auto

lemma pos_count_zero_iff: "pos_count c = 0 \<longleftrightarrow> \<not> (\<exists>l\<in>set c. l > 0)"
  by (auto simp: pos_count_def filter_empty_conv)

lemma pos_count_negate_first:
  "pos_count (map_first (\<lambda>l. l > 0) uminus (Suc 0) c) = pos_count c - 1"
proof -
  have "filter (\<lambda>l. l > 0) (map_first (\<lambda>l. l > 0) uminus (Suc 0) c)
      = drop (Suc 0) (filter (\<lambda>l. l > 0) c)"
    by (rule filter_map_first) simp
  then show ?thesis by (simp add: pos_count_def)
qed

lemma frame_refl: "frame sol c c"
  by (simp add: frame_def)

lemma unsatisfied_nth:
  "is_clause_satisfied c sol = Some False \<Longrightarrow> j < length c \<Longrightarrow>
     map_of sol (abs (c ! j)) = Some (\<not> c ! j > 0)"
  by (simp add: unsatisfied_iff)

lemma frame_negate_first:
  assumes "is_clause_satisfied c sol = Some False"
  shows "frame sol c (map_first (\<lambda>l. l > 0) uminus (Suc 0) c)"
proof -
  have "abs (map_first (\<lambda>l. l > 0) uminus (Suc 0) c ! j) = abs (c ! j) \<and>
        (map_first (\<lambda>l. l > 0) uminus (Suc 0) c ! j \<noteq> c ! j \<longrightarrow>
         map_of sol (abs (map_first (\<lambda>l. l > 0) uminus (Suc 0) c ! j))
           = Some (map_first (\<lambda>l. l > 0) uminus (Suc 0) c ! j > 0))"
    if j: "j < length c" for j
    using unsatisfied_nth [OF assms j] j by (cases "c ! j > 0") (simp_all add: nth_map_first)
  moreover have "length (map_first (\<lambda>l. l > 0) uminus (Suc 0) c) = length c" by simp
  ultimately show ?thesis unfolding frame_def by blast
qed

lemma frame_assert_first:
  assumes "is_clause_satisfied c sol = Some False"
  shows "frame sol c (map_first (\<lambda>l. l < 0) abs (Suc 0) c)"
proof -
  have "abs (map_first (\<lambda>l. l < 0) abs (Suc 0) c ! j) = abs (c ! j) \<and>
        (map_first (\<lambda>l. l < 0) abs (Suc 0) c ! j \<noteq> c ! j \<longrightarrow>
         map_of sol (abs (map_first (\<lambda>l. l < 0) abs (Suc 0) c ! j))
           = Some (map_first (\<lambda>l. l < 0) abs (Suc 0) c ! j > 0))"
    if j: "j < length c" for j
    using unsatisfied_nth [OF assms j] j by (cases "c ! j < 0") (simp_all add: nth_map_first)
  moreover have "length (map_first (\<lambda>l. l < 0) abs (Suc 0) c) = length c" by simp
  ultimately show ?thesis unfolding frame_def by blast
qed

lemma frame_map_abs:
  assumes "is_clause_satisfied c sol = Some False"
  shows "frame sol c (map abs c)"
proof -
  have "abs (map abs c ! j) = abs (c ! j) \<and>
        (map abs c ! j \<noteq> c ! j \<longrightarrow>
         map_of sol (abs (map abs c ! j)) = Some (map abs c ! j > 0))"
    if j: "j < length c" for j
    using unsatisfied_nth [OF assms j] j by (cases "c ! j < 0") simp_all
  moreover have "length (map abs c) = length c" by simp
  ultimately show ?thesis unfolding frame_def by blast
qed

text \<open>Branch: count at most target, more than one positive literal.\<close>

lemma repair_clause_below_nonhorn:
  assumes "is_clause_satisfied c sol = Some False" "hc \<le> t" "1 < pos_count c"
  shows "repair_clause sol t c hc =
           Some (map_first (\<lambda>l. l > 0) uminus (Suc 0) c,
                 if pos_count c = 2 then hc + 1 else hc)"
proof -
  let ?c1 = "map_first (\<lambda>l. l > 0) uminus (Suc 0) c"
  from assms(3) have ex: "\<exists>l\<in>set c. l > 0"
    using pos_count_zero_iff [of c] by auto
  have sat: "is_clause_satisfied ?c1 sol = Some True"
    using assms(1) ex by (rule satisfied_negate_first_positive)
  have loop: "negate_false_positives (positive_literals c) sol c = Some ?c1"
    using negate_false_positives_clause [OF assms(1)] by simp
  have pc: "length (filter (\<lambda>lit. lit > 0) ?c1) = pos_count c - 1"
    using pos_count_negate_first [of c] by (simp add: pos_count_def)
  show ?thesis
    unfolding repair_clause_def
    using assms sat loop pc by (auto simp: length_positive_literals)
qed

text \<open>Branch: count at most target, at most one positive literal.\<close>

lemma repair_clause_below_horn:
  assumes "is_clause_satisfied c sol = Some False" "hc \<le> t" "pos_count c \<le> 1"
  shows "repair_clause sol t c hc =
           Some (if pos_count c = 1 then map_first (\<lambda>l. l > 0) uminus (Suc 0) c
                 else map_first (\<lambda>l. l < 0) abs (Suc 0) c, hc)"
proof (cases "pos_count c = 1")
  case True
  let ?c1 = "map_first (\<lambda>l. l > 0) uminus (Suc 0) c"
  from True have ex: "\<exists>l\<in>set c. l > 0"
    using pos_count_zero_iff [of c] by auto
  have sat: "is_clause_satisfied ?c1 sol = Some True"
    using assms(1) ex by (rule satisfied_negate_first_positive)
  have loop1: "negate_false_positives (positive_literals c) sol c = Some ?c1"
    using negate_false_positives_clause [OF assms(1)] by simp
  have loop2: "assert_true_negatives_guarded (negative_literals c) sol ?c1 = Some ?c1"
    using sat by (rule assert_true_negatives_guarded_satisfied)
  have pc: "length (filter (\<lambda>lit. lit > 0) ?c1) = 0"
    using pos_count_negate_first [of c] True by (simp add: pos_count_def)
  show ?thesis
    unfolding repair_clause_def
    using assms True sat loop1 loop2 pc by (simp add: length_positive_literals)
next
  case False
  with assms(3) have zero: "pos_count c = 0" by simp
  let ?c2 = "map_first (\<lambda>l. l < 0) abs (Suc 0) c"
  have nopos: "filter (\<lambda>l. l > 0) c = []"
    using zero by (simp add: pos_count_def)
  have c1: "map_first (\<lambda>l. l > 0) uminus (Suc 0) c = c"
    using nopos by (rule map_first_none)
  have loop1: "negate_false_positives (positive_literals c) sol c = Some c"
    using negate_false_positives_clause [OF assms(1)] c1 by simp
  have loop2: "assert_true_negatives_guarded (negative_literals c) sol c = Some ?c2"
    using assert_true_negatives_guarded_clause [OF assms(1)] by simp
  have "\<forall>l\<in>set ?c2. map_of sol (abs l) \<noteq> None"
    using map_abs_map_first_abs unsatisfied_defined [OF assms(1)] by (rule defined_map_abs)
  then obtain b where sat: "is_clause_satisfied ?c2 sol = Some b"
    using is_clause_satisfied_defined by blast
  have "pos_count ?c2 = pos_count c + min (Suc 0) (neg_count c)"
    by (rule pos_count_map_first_abs)
  then have pc: "\<not> 1 < length (filter (\<lambda>lit. lit > 0) ?c2)"
    using zero by (simp add: pos_count_def)
  show ?thesis
    unfolding repair_clause_def
    using assms False zero sat loop1 loop2 pc by (simp add: length_positive_literals)
qed

text \<open>Branches: count above target.\<close>

lemma repair_clause_above:
  assumes "is_clause_satisfied c sol = Some False" "t < hc"
  shows "\<exists>hc'. repair_clause sol t c hc =
           Some (if \<exists>l\<in>set c. l < 0 then map abs c
                 else map_first (\<lambda>l. l > 0) uminus (Suc 0) c, hc')"
proof -
  let ?c2 = "if \<exists>l\<in>set c. l < 0 then map abs c
             else map_first (\<lambda>l. l > 0) uminus (Suc 0) c"
  have loop1: "assert_true_negatives (negative_literals c) sol c = Some (map abs c)"
    using assms(1) by (rule assert_true_negatives_clause)
  have loop2: "negate_false_positives (positive_literals c) sol (map abs c) = Some ?c2"
  proof (cases "\<exists>l\<in>set c. l < 0")
    case True
    then have "is_clause_satisfied (map abs c) sol = Some True"
      using assms(1) by (intro satisfied_map_abs)
    then have "negate_false_positives (positive_literals c) sol (map abs c) = Some (map abs c)"
      by (rule negate_false_positives_satisfied)
    with True show ?thesis by simp
  next
    case False
    then have "map abs c = c" by (rule map_abs_no_negative)
    with False negate_false_positives_clause [OF assms(1)] show ?thesis by simp
  qed
  have "map abs ?c2 = map abs c"
    by (simp add: map_abs_map_first_uminus)
  then have "\<forall>l\<in>set ?c2. map_of sol (abs l) \<noteq> None"
    using unsatisfied_defined [OF assms(1)] by (rule defined_map_abs)
  then obtain b where sat: "is_clause_satisfied ?c2 sol = Some b"
    using is_clause_satisfied_defined by blast
  show ?thesis
    unfolding repair_clause_def
    using assms loop1 loop2 sat by (simp add: length_positive_literals)
qed

lemma repair_clause_satisfied:
  "is_clause_satisfied c sol = Some True \<Longrightarrow> repair_clause sol t c hc = Some (c, hc)"
  by (simp add: repair_clause_def)

lemma repair_clause_frame:
  assumes "repair_clause sol t c hc = Some (c', hc')"
  shows "frame sol c c'"
proof (cases "is_clause_satisfied c sol")
  case None
  with assms show ?thesis by (simp add: repair_clause_def)
next
  case (Some b)
  show ?thesis
  proof (cases b)
    case True
    with Some assms have "c' = c" by (simp add: repair_clause_satisfied)
    then show ?thesis by (simp add: frame_refl)
  next
    case False
    with Some have u: "is_clause_satisfied c sol = Some False" by simp
    show ?thesis
    proof (cases "hc \<le> t")
      case below: True
      show ?thesis
      proof (cases "1 < pos_count c")
        case True
        from repair_clause_below_nonhorn [OF u below True] assms
        have "c' = map_first (\<lambda>l. l > 0) uminus (Suc 0) c" by simp
        with frame_negate_first [OF u] show ?thesis by simp
      next
        case False
        then have "pos_count c \<le> 1" by simp
        from repair_clause_below_horn [OF u below this] assms
        have "c' = map_first (\<lambda>l. l > 0) uminus (Suc 0) c
              \<or> c' = map_first (\<lambda>l. l < 0) abs (Suc 0) c"
          by (simp split: if_splits)
        with frame_negate_first [OF u] frame_assert_first [OF u] show ?thesis by blast
      qed
    next
      case False
      then have "t < hc" by simp
      from repair_clause_above [OF u this] assms
      have "c' = map abs c \<or> c' = map_first (\<lambda>l. l > 0) uminus (Suc 0) c"
        by (auto split: if_splits)
      with frame_map_abs [OF u] frame_negate_first [OF u] show ?thesis by blast
    qed
  qed
qed

lemma repair_clauses_frame:
  "repair_clauses sol t cs hc = Some (cs', hc') \<Longrightarrow> list_all2 (frame sol) cs cs'"
proof (induction cs arbitrary: hc cs' hc')
  case Nil
  then show ?case by simp
next
  case (Cons c cs)
  from Cons.prems obtain c1 h1 rest h2 where
    r: "repair_clause sol t c hc = Some (c1, h1)"
       "repair_clauses sol t cs h1 = Some (rest, h2)"
       "cs' = c1 # rest"
    by (auto split: bind_splits)
  from repair_clause_frame [OF r(1)] Cons.IH [OF r(2)] r(3) show ?case by simp
qed

lemma repair_clause_total:
  assumes "\<forall>l\<in>set c. map_of sol (abs l) \<noteq> None" "c \<noteq> []" "0 \<notin> set c"
  shows "\<exists>c' hc'. repair_clause sol t c hc = Some (c', hc')
           \<and> is_clause_satisfied c' sol = Some True"
proof -
  from is_clause_satisfied_defined [OF assms(1)] obtain b where
    b: "is_clause_satisfied c sol = Some b" by blast
  show ?thesis
  proof (cases b)
    case True
    with b repair_clause_satisfied [of c sol t hc] show ?thesis by simp
  next
    case False
    with b have u: "is_clause_satisfied c sol = Some False" by simp
    from assms(2) obtain x where x: "x \<in> set c" by (cases c) auto
    with assms(3) have sign: "x > 0 \<or> x < 0" by (metis linorder_neqE_linordered_idom)
    show ?thesis
    proof (cases "hc \<le> t")
      case below: True
      show ?thesis
      proof (cases "1 < pos_count c")
        case True
        then have "\<exists>l\<in>set c. l > 0" using pos_count_zero_iff [of c] by auto
        from satisfied_negate_first_positive [OF u this]
          repair_clause_below_nonhorn [OF u below True]
        show ?thesis by simp
      next
        case False
        then have h: "pos_count c \<le> 1" by simp
        show ?thesis
        proof (cases "pos_count c = 1")
          case True
          then have "\<exists>l\<in>set c. l > 0" using pos_count_zero_iff [of c] by auto
          from satisfied_negate_first_positive [OF u this]
            repair_clause_below_horn [OF u below h] True
          show ?thesis by simp
        next
          case nopos: False
          with h have "pos_count c = 0" by simp
          then have "\<not> (\<exists>l\<in>set c. l > 0)" using pos_count_zero_iff [of c] by blast
          with x sign have "\<exists>l\<in>set c. l < 0" by blast
          from satisfied_assert_first_negative [OF u this]
            repair_clause_below_horn [OF u below h] nopos
          show ?thesis by simp
        qed
      qed
    next
      case False
      then have above: "t < hc" by simp
      from repair_clause_above [OF u above] obtain hc' where
        r: "repair_clause sol t c hc =
             Some (if \<exists>l\<in>set c. l < 0 then map abs c
                   else map_first (\<lambda>l. l > 0) uminus (Suc 0) c, hc')"
        by blast
      show ?thesis
      proof (cases "\<exists>l\<in>set c. l < 0")
        case True
        from satisfied_map_abs [OF u True] r True show ?thesis by simp
      next
        case False
        with x sign have "\<exists>l\<in>set c. l > 0" by blast
        from satisfied_negate_first_positive [OF u this] r False show ?thesis by simp
      qed
    qed
  qed
qed

lemma repair_clauses_total:
  "\<forall>c\<in>set cs. (\<forall>l\<in>set c. map_of sol (abs l) \<noteq> None) \<and> c \<noteq> [] \<and> 0 \<notin> set c \<Longrightarrow>
     \<exists>cs' hc'. repair_clauses sol t cs hc = Some (cs', hc')
        \<and> (\<forall>c'\<in>set cs'. is_clause_satisfied c' sol = Some True)"
proof (induction cs arbitrary: hc)
  case Nil
  then show ?case by simp
next
  case (Cons c cs)
  from Cons.prems have c: "\<forall>l\<in>set c. map_of sol (abs l) \<noteq> None" "c \<noteq> []" "0 \<notin> set c"
    by simp_all
  from repair_clause_total [OF c, of t hc] obtain c1 h1 where
    r1: "repair_clause sol t c hc = Some (c1, h1)" "is_clause_satisfied c1 sol = Some True"
    by blast
  from Cons.prems have "\<forall>c\<in>set cs. (\<forall>l\<in>set c. map_of sol (abs l) \<noteq> None) \<and> c \<noteq> [] \<and> 0 \<notin> set c"
    by simp
  from Cons.IH [OF this, of h1] obtain rest h2 where
    r2: "repair_clauses sol t cs h1 = Some (rest, h2)"
        "\<forall>c'\<in>set rest. is_clause_satisfied c' sol = Some True"
    by blast
  from r1 r2 show ?case by simp
qed

lemma well_formed_defined:
  assumes "well_formed cs nv"
  shows "\<forall>c\<in>set cs. (\<forall>l\<in>set c. map_of (generate_solution cs nv ch) (abs l) \<noteq> None)
           \<and> c \<noteq> [] \<and> 0 \<notin> set c"
proof -
  from assms have v: "vars_in_range cs nv" by (simp add: well_formed_def)
  have keys: "fst ` set (generate_solution cs nv ch) = {1..nv}"
    using v by (rule generate_solution_keys)
  have "map_of (generate_solution cs nv ch) (abs l) \<noteq> None" if "c \<in> set cs" "l \<in> set c" for c l
  proof -
    from v that have "abs l \<in> {1..nv}" by (auto simp: vars_in_range_def)
    then show ?thesis unfolding map_of_eq_None_iff keys by simp
  qed
  moreover have "0 \<notin> set c" if "c \<in> set cs" for c
  proof
    assume "0 \<in> set c"
    with v that have "(1::int) \<le> abs 0" unfolding vars_in_range_def by blast
    then show False by simp
  qed
  ultimately show ?thesis
    using assms by (auto simp: well_formed_def)
qed

lemma make_satisfiable_satisfies:
  assumes "well_formed cs nv"
  shows "\<exists>cs'. make_satisfiable cs nv t ch = Some cs'
           \<and> (\<forall>c'\<in>set cs'. is_clause_satisfied c' (generate_solution cs nv ch) = Some True)"
proof -
  from repair_clauses_total [OF well_formed_defined [OF assms],
      of ch t "count_horn_clauses cs"]
  obtain cs' hc' where
    r: "repair_clauses (generate_solution cs nv ch) t cs (count_horn_clauses cs) = Some (cs', hc')"
       "\<forall>c'\<in>set cs'. is_clause_satisfied c' (generate_solution cs nv ch) = Some True"
    by blast
  from r(1) have "make_satisfiable cs nv t ch = Some cs'"
    by (simp add: make_satisfiable_def make_satisfiable_locals_def)
  with r(2) show ?thesis by blast
qed

text \<open>
  Claim C1, as the code has it. For every well-formed formula (no empty clause, every
  variable in \<open>1 .. num_vars\<close>), \<^const>\<open>make_satisfiable\<close> returns, and every clause of
  the list it returns is satisfied by the assignment it built at its start. A flip only
  ever sets a literal to the polarity the assignment gives its variable, clauses share
  no storage, and the assignment is not changed, so no clause is left or made
  unsatisfied.
\<close>

theorem make_satisfiable_always_satisfies:
  assumes "well_formed cs nv"
  shows "\<exists>cs'. make_satisfiable cs nv t ch = Some cs'
           \<and> (\<forall>c'\<in>set cs'. is_clause_satisfied c' (generate_solution cs nv ch) = Some True)"
  using assms by (rule make_satisfiable_satisfies)

theorem make_satisfiable_always_satisfies_witness:
  "well_formed [[1, 2], [-1, -2], [-2, 3]] 3
   \<and> make_satisfiable [[1, 2], [-1, -2], [-2, 3]] 3 0 (\<lambda>k. False)
       = Some [[1, 2], [1, 2], [-2, 3]]
   \<and> is_clause_satisfied [1, 2] (generate_solution [[1, 2], [-1, -2], [-2, 3]] 3 (\<lambda>k. False))
       = Some True
   \<and> is_clause_satisfied [-2, 3] (generate_solution [[1, 2], [-1, -2], [-2, 3]] 3 (\<lambda>k. False))
       = Some True"
proof -
  let ?cs = "[[1, 2], [-1, -2], [-2, 3 :: int]]"
  have h: "well_formed ?cs 3"
    by (simp add: well_formed_def vars_in_range_def)
  have e: "make_satisfiable ?cs 3 0 (\<lambda>k. False) = Some [[1, 2], [1, 2], [-2, 3]]"
    by code_simp
  from make_satisfiable_always_satisfies [OF h, of 0 "\<lambda>k. False"] obtain cs' where
    r: "make_satisfiable ?cs 3 0 (\<lambda>k. False) = Some cs'"
       "\<forall>c'\<in>set cs'. is_clause_satisfied c' (generate_solution ?cs 3 (\<lambda>k. False)) = Some True"
    by blast
  from r(1) e have "cs' = [[1, 2], [1, 2], [-2, 3]]" by simp
  with r(2) h e show ?thesis by simp
qed

text \<open>
  The claim as stated asks for a well-formed formula on which \<^const>\<open>make_satisfiable\<close>
  returns a clause list with a clause that the assignment does not satisfy. There is
  none.
\<close>

theorem make_satisfiable_may_fail_counterexample:
  "\<not> (\<exists>cs nv t ch. well_formed cs nv
        \<and> (\<exists>cs'. make_satisfiable cs nv t ch = Some cs'
              \<and> (\<exists>c'\<in>set cs'.
                    is_clause_satisfied c' (generate_solution cs nv ch) \<noteq> Some True)))"
proof
  assume "\<exists>cs nv t ch. well_formed cs nv
        \<and> (\<exists>cs'. make_satisfiable cs nv t ch = Some cs'
              \<and> (\<exists>c'\<in>set cs'.
                    is_clause_satisfied c' (generate_solution cs nv ch) \<noteq> Some True))"
  then obtain cs nv t ch cs' c' where
    a: "well_formed cs nv" "make_satisfiable cs nv t ch = Some cs'" "c' \<in> set cs'"
       "is_clause_satisfied c' (generate_solution cs nv ch) \<noteq> Some True"
    by blast
  from make_satisfiable_satisfies [OF a(1), of t ch] a(2,3)
  have "is_clause_satisfied c' (generate_solution cs nv ch) = Some True" by auto
  with a(4) show False by contradiction
qed

text \<open>
  Claim C4, as the code has it. In the branches where the running Horn count exceeds the
  target, a clause that is satisfied when visited is returned as it is. An unsatisfied
  clause with a negative literal gets every negative literal made positive (each of them
  is assigned true), with no test of the clause between these flips, and none of its
  positive literals is touched. An unsatisfied clause without negative literals gets
  exactly its first positive literal negated.
\<close>

theorem repair_above_target_flips:
  assumes "t < hc"
  shows "(is_clause_satisfied c sol = Some True \<longrightarrow> repair_clause sol t c hc = Some (c, hc))
     \<and> (is_clause_satisfied c sol = Some False \<longrightarrow>
          (\<exists>c' hc'. repair_clause sol t c hc = Some (c', hc')
             \<and> length c' = length c
             \<and> (\<forall>j<length c. c' ! j =
                  (if \<exists>l\<in>set c. l < 0 then abs (c ! j)
                   else if 0 < c ! j \<and> (\<forall>k<j. \<not> 0 < c ! k) then - (c ! j)
                   else c ! j))))"
proof (intro conjI impI)
  assume "is_clause_satisfied c sol = Some True"
  then show "repair_clause sol t c hc = Some (c, hc)" by (rule repair_clause_satisfied)
next
  assume u: "is_clause_satisfied c sol = Some False"
  let ?c' = "if \<exists>l\<in>set c. l < 0 then map abs c
             else map_first (\<lambda>l. l > 0) uminus (Suc 0) c"
  from repair_clause_above [OF u assms] obtain hc' where
    r: "repair_clause sol t c hc = Some (?c', hc')" by blast
  have len: "length ?c' = length c" by simp
  have first: "length (filter (\<lambda>l. l > 0) (take j c)) < Suc 0 \<longleftrightarrow> (\<forall>k<j. \<not> 0 < c ! k)"
    if "j < length c" for j
    using that by (simp add: length_filter_take_card)
  have nth: "?c' ! j =
        (if \<exists>l\<in>set c. l < 0 then abs (c ! j)
         else if 0 < c ! j \<and> (\<forall>k<j. \<not> 0 < c ! k) then - (c ! j) else c ! j)"
    if j: "j < length c" for j
    using j first [OF j] by (simp add: nth_map_first)
  from r len nth show "\<exists>c' hc'. repair_clause sol t c hc = Some (c', hc')
             \<and> length c' = length c
             \<and> (\<forall>j<length c. c' ! j =
                  (if \<exists>l\<in>set c. l < 0 then abs (c ! j)
                   else if 0 < c ! j \<and> (\<forall>k<j. \<not> 0 < c ! k) then - (c ! j)
                   else c ! j))"
    by blast
qed

theorem repair_above_target_flips_witness:
  "(0::int) < 1
   \<and> is_clause_satisfied [-1, 3, -2] [(1, True), (2, True), (3, False)] = Some False
   \<and> repair_clause [(1, True), (2, True), (3, False)] 0 [-1, 3, -2] 1 = Some ([1, 3, 2], 0)
   \<and> is_clause_satisfied [1, -2] [(1, True), (2, True)] = Some True
   \<and> repair_clause [(1, True), (2, True)] 0 [1, -2] 1 = Some ([1, -2], 1)"
proof -
  have h: "(0::int) < 1" by simp
  have u: "is_clause_satisfied [-1, 3, -2] [(1, True), (2, True), (3, False)] = Some False"
    by simp
  have s: "is_clause_satisfied [1, -2] [(1, True), (2, True)] = Some True"
    by simp
  have e: "repair_clause [(1, True), (2, True), (3, False)] 0 [-1, 3, -2] 1 = Some ([1, 3, 2], 0)"
    by code_simp
  from repair_above_target_flips [OF h, of "[1, -2]" "[(1, True), (2, True)]"] s
  have k: "repair_clause [(1, True), (2, True)] 0 [1, -2] 1 = Some ([1, -2], 1)" by blast
  from repair_above_target_flips [OF h, of "[-1, 3, -2]" "[(1, True), (2, True), (3, False)]"] u
  obtain c' hc' where
    r: "repair_clause [(1, True), (2, True), (3, False)] 0 [-1, 3, -2] 1 = Some (c', hc')"
    by blast
  from r e have "c' = [1, 3, 2]" "hc' = 0" by simp_all
  with r h u s k show ?thesis by blast
qed

text \<open>
  The claim as stated says that no flip is made on a clause that is already satisfied.
  With both variables assigned true, the first iteration of the loop over the negative
  literals of \<open>[-1, -2]\<close> gives \<open>[1, -2]\<close>, which is satisfied, and the second iteration
  still flips \<open>-2\<close>.
\<close>

theorem repair_stops_when_satisfied_counterexample:
  "negative_literals [-1, -2] = [(0, -1), (1, -2)]
   \<and> assert_true_negatives [(0, -1)] [(1, True), (2, True)] [-1, -2] = Some [1, -2]
   \<and> is_clause_satisfied [1, -2] [(1, True), (2, True)] = Some True
   \<and> assert_true_negatives [(1, -2)] [(1, True), (2, True)] [1, -2] = Some [1, 2]
   \<and> is_clause_satisfied [-1, -2] [(1, True), (2, True)] = Some False
   \<and> repair_clause [(1, True), (2, True)] 0 [-1, -2] 1 = Some ([1, 2], 0)"
  by code_simp

lemma repair_below_target_horn_one_flip:
  assumes "hc \<le> t" "length (positive_literals c) \<le> 1"
    "is_clause_satisfied c sol = Some False" "c \<noteq> []" "0 \<notin> set c"
  shows "\<exists>c' j. repair_clause sol t c hc = Some (c', hc)
           \<and> j < length c \<and> c' = c[j := - (c ! j)]
           \<and> (if \<exists>l\<in>set c. 0 < l then 0 < c ! j else j = 0)
           \<and> is_clause_satisfied c' sol = Some True
           \<and> length (filter (\<lambda>lit. lit > 0) c') \<le> 1"
proof -
  from assms(2) have horn: "pos_count c \<le> 1" by (simp add: length_positive_literals)
  note r = repair_clause_below_horn [OF assms(3) assms(1) horn]
  show ?thesis
  proof (cases "pos_count c = 1")
    case True
    let ?c' = "map_first (\<lambda>l. l > 0) uminus (Suc 0) c"
    from True have ex: "\<exists>l\<in>set c. 0 < l" using pos_count_zero_iff [of c] by auto
    from map_first_one_update [OF ex, of uminus] obtain j where
      j: "j < length c" "0 < c ! j" "?c' = c[j := - (c ! j)]" by blast
    have sat: "is_clause_satisfied ?c' sol = Some True"
      using assms(3) ex by (rule satisfied_negate_first_positive)
    have pc: "length (filter (\<lambda>lit. lit > 0) ?c') \<le> 1"
      using pos_count_negate_first [of c] True by (simp add: pos_count_def)
    from r True have run: "repair_clause sol t c hc = Some (?c', hc)" by simp
    from run j ex sat pc show ?thesis
      by (intro exI [of _ ?c'] exI [of _ j]) simp
  next
    case False
    let ?c' = "map_first (\<lambda>l. l < 0) abs (Suc 0) c"
    from False horn have zero: "pos_count c = 0" by simp
    then have nopos: "\<not> (\<exists>l\<in>set c. 0 < l)" using pos_count_zero_iff [of c] by blast
    from assms(4) have c0: "c ! 0 \<in> set c" by (cases c) auto
    with nopos assms(5) have neg0: "c ! 0 < 0"
      by (metis linorder_neqE_linordered_idom)
    with c0 have ex: "\<exists>l\<in>set c. l < 0" by blast
    from map_first_one_update [OF ex, of abs] obtain j where
      j: "j < length c" "c ! j < 0" "\<forall>k<j. \<not> c ! k < 0" "?c' = c[j := abs (c ! j)]" by blast
    from j(3) neg0 have j0: "j = 0" by (cases j) auto
    have upd: "?c' = c[0 := - (c ! 0)]" using j(2,4) j0 by simp
    have sat: "is_clause_satisfied ?c' sol = Some True"
      using assms(3) ex by (rule satisfied_assert_first_negative)
    have "pos_count ?c' = pos_count c + min (Suc 0) (neg_count c)"
      by (rule pos_count_map_first_abs)
    then have pc: "length (filter (\<lambda>lit. lit > 0) ?c') \<le> 1"
      using zero by (simp add: pos_count_def)
    from r False have run: "repair_clause sol t c hc = Some (?c', hc)" by simp
    from assms(4) have len: "0 < length c" by simp
    from run upd nopos sat pc len show ?thesis
      by (intro exI [of _ ?c'] exI [of _ 0]) simp
  qed
qed

lemma repair_clause_below_horn_count:
  assumes "hc \<le> t" "pos_count c \<le> 1" "repair_clause sol t c hc = Some (c', hc')"
  shows "hc' = hc \<and> length (filter (\<lambda>lit. lit > 0) c') \<le> 1"
proof (cases "is_clause_satisfied c sol")
  case None
  with assms(3) show ?thesis by (simp add: repair_clause_def)
next
  case (Some b)
  show ?thesis
  proof (cases b)
    case True
    with Some assms(3) have "c' = c" "hc' = hc" by (simp_all add: repair_clause_satisfied)
    with assms(2) show ?thesis by (simp add: pos_count_def)
  next
    case False
    with Some have u: "is_clause_satisfied c sol = Some False" by simp
    note r = repair_clause_below_horn [OF u assms(1,2)]
    show ?thesis
    proof (cases "pos_count c = 1")
      case True
      with r assms(3) have c': "c' = map_first (\<lambda>l. l > 0) uminus (Suc 0) c" and h: "hc' = hc"
        by simp_all
      have "pos_count c' = 0"
        unfolding c' using pos_count_negate_first [of c] True by simp
      with h show ?thesis by (simp add: pos_count_def)
    next
      case False
      with assms(2) have zero: "pos_count c = 0" by simp
      from False r assms(3) have c': "c' = map_first (\<lambda>l. l < 0) abs (Suc 0) c"
        and h: "hc' = hc"
        by simp_all
      have "pos_count c' = pos_count c + min (Suc 0) (neg_count c)"
        unfolding c' by (rule pos_count_map_first_abs)
      with zero h show ?thesis by (simp add: pos_count_def)
    qed
  qed
qed

text \<open>
  Claim C5. In the branch where the running Horn count is at most the target and the
  clause has at most one positive literal, whenever the loop body returns, the running
  count is returned unchanged (the decrement is not executed) and the clause has at most
  one positive literal. An unsatisfied non-empty clause of non-zero literals is changed
  at exactly one position \<open>j\<close>, where the literal is negated: the position of its
  positive literal when it has one, the first position otherwise (all its literals are
  then negative and assigned true); that single flip satisfies the clause.
\<close>

theorem repair_below_target_horn_no_decrement:
  assumes "hc \<le> t" "length (positive_literals c) \<le> 1"
  shows "(\<forall>c' hc'. repair_clause sol t c hc = Some (c', hc') \<longrightarrow>
            hc' = hc \<and> length (filter (\<lambda>lit. lit > 0) c') \<le> 1)
     \<and> (is_clause_satisfied c sol = Some False \<and> c \<noteq> [] \<and> 0 \<notin> set c \<longrightarrow>
          (\<exists>c' j. repair_clause sol t c hc = Some (c', hc)
             \<and> j < length c \<and> c' = c[j := - (c ! j)]
             \<and> (if \<exists>l\<in>set c. 0 < l then 0 < c ! j else j = 0)
             \<and> is_clause_satisfied c' sol = Some True))"
proof (intro conjI allI impI)
  fix c' hc'
  assume r: "repair_clause sol t c hc = Some (c', hc')"
  from assms(2) have horn: "pos_count c \<le> 1" by (simp add: length_positive_literals)
  from repair_clause_below_horn_count [OF assms(1) horn r]
  show "hc' = hc" and "length (filter (\<lambda>lit. lit > 0) c') \<le> 1" by simp_all
next
  assume a: "is_clause_satisfied c sol = Some False \<and> c \<noteq> [] \<and> 0 \<notin> set c"
  then have "is_clause_satisfied c sol = Some False" "c \<noteq> []" "0 \<notin> set c" by simp_all
  from repair_below_target_horn_one_flip [OF assms this]
  show "\<exists>c' j. repair_clause sol t c hc = Some (c', hc)
             \<and> j < length c \<and> c' = c[j := - (c ! j)]
             \<and> (if \<exists>l\<in>set c. 0 < l then 0 < c ! j else j = 0)
             \<and> is_clause_satisfied c' sol = Some True"
    by blast
qed

theorem repair_below_target_horn_no_decrement_witness:
  "(1::int) \<le> 1
   \<and> length (positive_literals [-1, -2, -3]) \<le> 1
   \<and> is_clause_satisfied [-1, -2, -3] [(1, True), (2, True), (3, True)] = Some False
   \<and> repair_clause [(1, True), (2, True), (3, True)] 1 [-1, -2, -3] 1 = Some ([1, -2, -3], 1)
   \<and> is_clause_satisfied [1, -2, -3] [(1, True), (2, True), (3, True)] = Some True"
proof -
  let ?sol = "[(1, True), (2, True), (3 :: int, True)]"
  let ?c = "[-1, -2, -3 :: int]"
  have h1: "(1::int) \<le> 1" by simp
  have h2: "length (positive_literals ?c) \<le> 1" by (simp add: positive_literals_def)
  have h3: "is_clause_satisfied ?c ?sol = Some False \<and> ?c \<noteq> [] \<and> 0 \<notin> set ?c" by simp
  have e: "repair_clause ?sol 1 ?c 1 = Some ([1, -2, -3], 1)" by code_simp
  from repair_below_target_horn_no_decrement [OF h1 h2, of ?sol] h3 obtain c' where
    r: "repair_clause ?sol 1 ?c 1 = Some (c', 1)" "is_clause_satisfied c' ?sol = Some True"
    by blast
  from r(1) e have "c' = [1, -2, -3]" by simp
  with r h1 h2 h3 show ?thesis by simp
qed

text \<open>
  Claim C6. Whenever \<^const>\<open>make_satisfiable\<close> returns, for any formula: the clause list
  has the same number of clauses, each clause the same length and the same variable at
  every position; the local \<^verbatim>\<open>solution\<close> still is what \<^const>\<open>generate_solution\<close>
  returned; and every literal that differs from the one at its position before has the
  polarity that the assignment gives its variable.
\<close>

theorem make_satisfiable_frame:
  assumes "make_satisfiable_locals cs nv t ch = Some (cs', sol', hc')"
  shows "make_satisfiable cs nv t ch = Some cs'
     \<and> sol' = generate_solution cs nv ch
     \<and> length cs' = length cs
     \<and> (\<forall>i<length cs. length (cs' ! i) = length (cs ! i)
           \<and> (\<forall>j<length (cs ! i).
                 abs (cs' ! i ! j) = abs (cs ! i ! j)
                 \<and> (cs' ! i ! j \<noteq> cs ! i ! j \<longrightarrow>
                      map_of sol' (abs (cs' ! i ! j)) = Some (cs' ! i ! j > 0))))"
proof -
  let ?sol = "generate_solution cs nv ch"
  from assms have m: "map_option (\<lambda>(clauses', count'). (clauses', ?sol, count'))
        (repair_clauses ?sol t cs (count_horn_clauses cs)) = Some (cs', sol', hc')"
    unfolding make_satisfiable_locals_def Let_def .
  then obtain p where p: "repair_clauses ?sol t cs (count_horn_clauses cs) = Some p"
    and q: "(\<lambda>(clauses', count'). (clauses', ?sol, count')) p = (cs', sol', hc')"
    by (cases "repair_clauses ?sol t cs (count_horn_clauses cs)") simp_all
  obtain x h where xh: "p = (x, h)" by (cases p)
  from q have sol: "sol' = generate_solution cs nv ch" and x: "x = cs'"
    unfolding xh by simp_all
  from p have r: "repair_clauses (generate_solution cs nv ch) t cs (count_horn_clauses cs)
      = Some (cs', h)"
    unfolding xh x .
  from assms have ms: "make_satisfiable cs nv t ch = Some cs'"
    by (simp add: make_satisfiable_def)
  from repair_clauses_frame [OF r] have fr: "list_all2 (frame sol') cs cs'"
    by (simp only: sol)
  then have len: "length cs' = length cs"
    by (simp add: list_all2_lengthD)
  have each: "frame sol' (cs ! i) (cs' ! i)" if "i < length cs" for i
    using fr that by (rule list_all2_nthD)
  from ms sol len each show ?thesis
    unfolding frame_def by blast
qed

theorem make_satisfiable_frame_witness:
  "make_satisfiable_locals [[1, -2], [-1, 2], [2]] 2 5 (\<lambda>k. True)
     = Some ([[1, -2], [-1, -2], [-2]], [(1, True), (2, False)], 3)
   \<and> make_satisfiable [[1, -2], [-1, 2], [2]] 2 5 (\<lambda>k. True) = Some [[1, -2], [-1, -2], [-2]]
   \<and> generate_solution [[1, -2], [-1, 2], [2]] 2 (\<lambda>k. True) = [(1, True), (2, False)]"
proof -
  have e: "make_satisfiable_locals [[1, -2], [-1, 2], [2]] 2 5 (\<lambda>k. True)
     = Some ([[1, -2], [-1, -2], [-2]], [(1, True), (2, False)], 3)"
    by code_simp
  from make_satisfiable_frame [OF e] e show ?thesis by simp
qed

end
